theory Spec2Isabelle
  imports Main "HOL-Library.Signed_Division" "HOL-Library.Monad_Syntax"
begin

section \<open>The Bignum class of bignum.cpp\<close>

text \<open>
  A \<^verbatim>\<open>Bignum\<close> holds one field, \<^verbatim>\<open>std::vector<int> bignum_vector\<close>, the digits with the
  most significant one first. The model is the list of these \<^verbatim>\<open>int\<close>s. Nothing in the
  class restricts an entry to \<open>0..9\<close>, so the entries are integers here as well. The
  C++ \<^verbatim>\<open>int\<close> is modelled by the unbounded \<open>int\<close>: on vectors whose entries are decimal
  digits every intermediate value of the arithmetic below stays under 100.
\<close>

type_synonym bignum = "int list"

datatype error = LengthError | OutOfRange | InvalidArgument

subsection \<open>Construction and trimming\<close>

text \<open>
  \<^verbatim>\<open>ch - '0'\<close> promotes the \<^verbatim>\<open>char\<close> to \<^verbatim>\<open>int\<close>; \<^verbatim>\<open>char\<close> is signed on the usual targets, so a
  byte above 127 is a negative number.
\<close>

definition char_to_int :: "char \<Rightarrow> int" where
  "char_to_int ch = (let n = of_char ch in if n < 128 then n else n - 256)"

definition Bignum :: "string \<Rightarrow> bignum" where
  "Bignum string_num = map (\<lambda>ch. char_to_int ch - char_to_int (CHR ''0'')) string_num"

fun remove_excess :: "bignum \<Rightarrow> bignum" where
  "remove_excess (d # d' # ds) = (if d = 0 then remove_excess (d' # ds) else d # d' # ds)"
| "remove_excess ds = ds"

subsection \<open>Comparison\<close>

definition op_eq :: "bignum \<Rightarrow> bignum \<Rightarrow> bool" where
  "op_eq a other = (a = other)"

fun lexicographical_compare :: "int list \<Rightarrow> int list \<Rightarrow> bool" where
  "lexicographical_compare [] [] = False"
| "lexicographical_compare [] (y # ys) = True"
| "lexicographical_compare (x # xs) [] = False"
| "lexicographical_compare (x # xs) (y # ys) =
     (if x < y then True else if y < x then False else lexicographical_compare xs ys)"

definition op_less :: "bignum \<Rightarrow> bignum \<Rightarrow> bool" where
  "op_less a other =
     (if length a \<noteq> length other then length a < length other
      else lexicographical_compare a other)"

definition op_greater :: "bignum \<Rightarrow> bignum \<Rightarrow> bool" where
  "op_greater a other = op_less other a"

subsection \<open>Subtraction\<close>

text \<open>
  The loop of \<^verbatim>\<open>operator-\<close> runs \<^verbatim>\<open>k\<close> from \<^verbatim>\<open>max_size - 1\<close> down to \<open>0\<close>, with \<^verbatim>\<open>i\<close> and \<^verbatim>\<open>j\<close>
  running down beside it and possibly below zero. The third numeric argument of
  \<open>minus_loop\<close> is the number of iterations left, so that \<open>Suc k\<close> stands for the
  iteration that writes index \<open>k\<close>.
\<close>

fun minus_loop :: "bignum \<Rightarrow> bignum \<Rightarrow> int \<Rightarrow> int \<Rightarrow> nat \<Rightarrow> int \<Rightarrow> bignum \<Rightarrow> bignum" where
  "minus_loop a other i j 0 borrow difference = difference"
| "minus_loop a other i j (Suc k) borrow difference =
     (let first_dig = (if i \<ge> 0 then a ! nat i else 0);
          second_dig = (if j \<ge> 0 then other ! nat j else 0);
          curr_diff = first_dig - second_dig - borrow
      in if curr_diff < 0
         then minus_loop a other (i - 1) (j - 1) k 1 (difference[k := curr_diff + 10])
         else minus_loop a other (i - 1) (j - 1) k 0 (difference[k := curr_diff]))"

definition op_minus :: "bignum \<Rightarrow> bignum \<Rightarrow> bignum" where
  "op_minus a other =
     (let max_size = max (length a) (length other);
          difference = replicate max_size 0
      in remove_excess
           (minus_loop a other (int (length a) - 1) (int (length other) - 1)
              max_size 0 difference))"

subsection \<open>Multiplication\<close>

text \<open>
  \<^verbatim>\<open>%\<close> and \<^verbatim>\<open>/\<close> of C++ truncate towards zero: they are \<open>smod\<close> and \<open>sdiv\<close>.
  \<open>times_inner\<close> is the loop over \<^verbatim>\<open>j\<close> and returns the buffer with the last carry;
  \<open>times_outer\<close> is the loop over \<^verbatim>\<open>i\<close>. As above, \<open>Suc j\<close> and \<open>Suc i\<close> stand for the
  iterations at index \<open>j\<close> and \<open>i\<close>.
\<close>

fun times_inner :: "bignum \<Rightarrow> bignum \<Rightarrow> nat \<Rightarrow> nat \<Rightarrow> int \<Rightarrow> bignum \<Rightarrow> bignum \<times> int" where
  "times_inner a other i 0 carry_over product = (product, carry_over)"
| "times_inner a other i (Suc j) carry_over product =
     (let curr_product = a ! i * other ! j + product ! (i + j + 1) + carry_over
      in times_inner a other i j (curr_product sdiv 10)
           (product[i + j + 1 := curr_product smod 10]))"

fun times_outer :: "bignum \<Rightarrow> bignum \<Rightarrow> nat \<Rightarrow> bignum \<Rightarrow> bignum" where
  "times_outer a other 0 product = product"
| "times_outer a other (Suc i) product =
     (if a ! i = 0 then times_outer a other i product
      else (case times_inner a other i (length other) 0 product of
              (product', carry_over) \<Rightarrow>
                times_outer a other i (product'[i := product' ! i + carry_over])))"

definition op_times :: "bignum \<Rightarrow> bignum \<Rightarrow> bignum" where
  "op_times a other =
     (let product_size = length a + length other;
          product = replicate product_size 0
      in remove_excess (times_outer a other (length a) product))"

subsection \<open>Division and remainder\<close>

text \<open>
  The inner \<^verbatim>\<open>while (!(rem < other))\<close> of \<^verbatim>\<open>operator/\<close> has no bound of its own, so it is a
  partial function: \<open>None\<close> says that the loop never leaves. The counter \<^verbatim>\<open>curr_div\<close>
  is the unbounded \<open>int\<close>: it stays below 10 when the divisor is a DecimalBigInt other
  than zero, and it plays no part in whether the loop ends.
\<close>

fun erase_leading_zeros :: "bignum \<Rightarrow> bignum" where
  "erase_leading_zeros [] = []"
| "erase_leading_zeros (d # ds) = (if d = 0 then erase_leading_zeros ds else d # ds)"

partial_function (option) div_loop :: "bignum \<Rightarrow> bignum \<Rightarrow> int \<Rightarrow> (bignum \<times> int) option" where
  "div_loop rem other curr_div =
     (if \<not> op_less rem other then div_loop (op_minus rem other) other (curr_div + 1)
      else Some (rem, curr_div))"

fun div_digits :: "bignum \<Rightarrow> bignum \<Rightarrow> bignum \<Rightarrow> bignum \<Rightarrow> bignum option" where
  "div_digits [] other quo rem = Some quo"
| "div_digits (i # rest) other quo rem =
     (case div_loop (erase_leading_zeros (rem @ [i])) other 0 of
        None \<Rightarrow> None
      | Some (rem', curr_div) \<Rightarrow> div_digits rest other (quo @ [curr_div]) rem')"

definition op_div :: "bignum \<Rightarrow> bignum \<Rightarrow> bignum option" where
  "op_div a other = map_option remove_excess (div_digits a other (Bignum ''0'') [])"

definition op_mod :: "bignum \<Rightarrow> bignum \<Rightarrow> bignum option" where
  "op_mod a other = map_option (\<lambda>q. op_minus a (op_times q other)) (op_div a other)"

subsection \<open>Modular exponentiation\<close>

text \<open>
  Each round of the loop starts the conditional multiplication and the squaring as two
  tasks and waits for both before it goes on. The first task reads \<^verbatim>\<open>mod_exp\<close> and
  \<^verbatim>\<open>curr_base\<close> and writes \<^verbatim>\<open>mod_exp\<close>, the second reads \<^verbatim>\<open>curr_base\<close>, and \<^verbatim>\<open>curr_base\<close> is
  written after both have ended: the round computes what the two tasks compute one
  after the other. \<^verbatim>\<open>back()\<close> of an empty vector has no defined behaviour; the model gives
  no result there.
\<close>

partial_function (option) mod_exponent_loop ::
  "bignum \<Rightarrow> bignum \<Rightarrow> bignum \<Rightarrow> bignum \<Rightarrow> bignum option" where
  "mod_exponent_loop mod_exp curr_base curr_exponent modulus =
     (if \<not> op_eq curr_exponent (Bignum ''0'') then
        (if curr_exponent = [] then None
         else do {
           mod_exp' \<leftarrow> (if last curr_exponent smod 2 \<noteq> 0
                        then op_mod (op_times mod_exp curr_base) modulus
                        else Some mod_exp);
           square_mod \<leftarrow> op_mod (op_times curr_base curr_base) modulus;
           curr_exponent' \<leftarrow> op_div curr_exponent (Bignum ''2'');
           mod_exponent_loop mod_exp' square_mod curr_exponent' modulus
         })
      else Some mod_exp)"

definition mod_exponent :: "bignum \<Rightarrow> bignum \<Rightarrow> bignum \<Rightarrow> bignum option" where
  "mod_exponent base exponent modulus =
     do {
       curr_base \<leftarrow> op_mod base modulus;
       mod_exp \<leftarrow> mod_exponent_loop (Bignum ''1'') curr_base exponent modulus;
       Some (remove_excess mod_exp)
     }"

subsection \<open>Digit strings\<close>

text \<open>
  \<^verbatim>\<open>std::to_string\<close> of an \<^verbatim>\<open>int\<close> writes a minus sign for a negative number and then the
  decimal digits; \<^verbatim>\<open>Bignum::to_string\<close> joins what it writes for each entry.
\<close>

definition digit_char :: "nat \<Rightarrow> char" where
  "digit_char n = char_of (of_char (CHR ''0'') + n)"

fun nat_to_string :: "nat \<Rightarrow> string" where
  "nat_to_string n =
     (if n < 10 then [digit_char n] else nat_to_string (n div 10) @ [digit_char (n mod 10)])"

declare nat_to_string.simps [simp del]

definition std_to_string :: "int \<Rightarrow> string" where
  "std_to_string v = (if v < 0 then CHR ''-'' # nat_to_string (nat (- v)) else nat_to_string (nat v))"

definition to_string :: "bignum \<Rightarrow> string" where
  "to_string b = concat (map std_to_string b)"

text \<open>\<^verbatim>\<open>std::setw(w) << std::setfill(c)\<close> before a number: filled on the left, never cut.\<close>

definition setw_fill :: "nat \<Rightarrow> char \<Rightarrow> string \<Rightarrow> string" where
  "setw_fill w c s = replicate (w - length s) c @ s"

definition string_to_bignum :: "string \<Rightarrow> bignum" where
  "string_to_bignum str =
     Bignum (concat (map (\<lambda>ch. setw_fill 3 (CHR ''0'') (std_to_string (of_char ch))) str))"

text \<open>
  \<^verbatim>\<open>std::stoi\<close> skips white space, reads an optional sign and the longest run of digits,
  and throws \<^verbatim>\<open>std::invalid_argument\<close> when there is no digit. The strings it is given
  here have three characters, so the value always fits an \<^verbatim>\<open>int\<close>.
\<close>

definition is_space :: "char \<Rightarrow> bool" where
  "is_space c = (c = CHR '' '' \<or> (9 \<le> (of_char c :: nat) \<and> (of_char c :: nat) \<le> 13))"

definition is_digit :: "char \<Rightarrow> bool" where
  "is_digit c = (48 \<le> (of_char c :: nat) \<and> (of_char c :: nat) \<le> 57)"

definition stoi :: "string \<Rightarrow> error + int" where
  "stoi s =
     (let s1 = dropWhile is_space s;
          negative = (s1 \<noteq> [] \<and> hd s1 = CHR ''-'');
          s2 = (if s1 \<noteq> [] \<and> (hd s1 = CHR ''-'' \<or> hd s1 = CHR ''+'') then tl s1 else s1);
          ds = takeWhile is_digit s2;
          v = foldl (\<lambda>acc c. 10 * acc + (of_char c - 48)) 0 ds
      in if ds = [] then Inl InvalidArgument
         else Inr (if negative then - v else v))"

text \<open>
  \<^verbatim>\<open>s.substr(pos, count)\<close> throws \<^verbatim>\<open>std::out_of_range\<close> when \<open>pos\<close> is beyond the end and
  otherwise takes what is there, up to \<open>count\<close> characters.
\<close>

definition substr :: "string \<Rightarrow> nat \<Rightarrow> nat \<Rightarrow> error + string" where
  "substr s pos count = (if pos > length s then Inl OutOfRange else Inr (take count (drop pos s)))"

definition substr_from :: "string \<Rightarrow> nat \<Rightarrow> error + string" where
  "substr_from s pos = (if pos > length s then Inl OutOfRange else Inr (drop pos s))"

text \<open>
  The loop of \<^verbatim>\<open>bignum_to_string\<close>, three characters a round, on a string whose length is
  a multiple of three. \<^verbatim>\<open>static_cast<char>\<close> keeps the low eight bits, as \<open>char_of\<close> does.
\<close>

fun decode_groups :: "string \<Rightarrow> error + string" where
  "decode_groups [] = Inr []"
| "decode_groups (c # cs) =
     (case stoi (take 3 (c # cs)) of
        Inl e \<Rightarrow> Inl e
      | Inr v \<Rightarrow> (case decode_groups (drop 3 (c # cs)) of
                    Inl e \<Rightarrow> Inl e
                  | Inr new_str \<Rightarrow> Inr (char_of v # new_str)))"

definition bignum_to_string :: "bignum \<Rightarrow> error + string" where
  "bignum_to_string bignum =
     (let to_convert = to_string bignum;
          to_convert' =
            (if length to_convert mod 3 \<noteq> 0
             then replicate (3 - length to_convert mod 3) (CHR ''0'') @ to_convert
             else to_convert)
      in decode_groups to_convert')"

subsection \<open>Framing a line\<close>

text \<open>
  \<^verbatim>\<open>padding_check\<close> is a \<^verbatim>\<open>size_t\<close>: the two subtractions wrap modulo \<open>2 ^ 64\<close>.
  \<^verbatim>\<open>result.append(n, ' ')\<close> throws \<^verbatim>\<open>std::length_error\<close> when the string would pass
  \<^verbatim>\<open>max_size()\<close>, which is \<open>2 ^ 62 - 1\<close> in the GNU library on a 64-bit target.
\<close>

definition size_t :: "int \<Rightarrow> int" where
  "size_t v = v mod 2 ^ 64"

definition string_max_size :: int where
  "string_max_size = 2 ^ 62 - 1"

definition padding :: "string \<Rightarrow> int \<Rightarrow> error + string" where
  "padding input line_num =
     (let oss = setw_fill 3 (CHR '' '') (std_to_string line_num);
          result = oss @ input;
          padding_check = size_t (102 - int (length result));
          n = size_t (padding_check - 3)
      in if int (length result) + n > string_max_size then Inl LengthError
         else Inr (result @ replicate (nat n) (CHR '' '') @ oss))"

subsection \<open>Encryption and decryption of a text\<close>

text \<open>
  The strings \<^verbatim>\<open>rsa_n\<close>, \<^verbatim>\<open>rsa_e\<close> and \<^verbatim>\<open>rsa_d\<close> are placeholders in the source. The three
  numbers made of them, \<^verbatim>\<open>public_mod\<close>, \<^verbatim>\<open>public_exp\<close> and \<^verbatim>\<open>priv_exp\<close>, are arguments of
  the functions that read them.
\<close>

definition MAX_CHARS_PER_CHUNK :: nat where
  "MAX_CHARS_PER_CHUNK = 96"

text \<open>\<open>getlines\<close> is what repeated \<^verbatim>\<open>std::getline\<close> reads from a string until it fails.\<close>

fun getlines_from :: "string \<Rightarrow> string \<Rightarrow> string list" where
  "getlines_from [] line = (if line = [] then [] else [line])"
| "getlines_from (c # cs) line =
     (if c = CHR 0x0A then line # getlines_from cs [] else getlines_from cs (line @ [c]))"

definition getlines :: "string \<Rightarrow> string list" where
  "getlines text = getlines_from text []"

text \<open>
  The body of the task that \<^verbatim>\<open>large_encrypt\<close> starts for a line. A \<^verbatim>\<open>std::future\<close> is
  modelled by what \<^verbatim>\<open>get()\<close> hands over: \<open>None\<close> when the task never ends, an error when
  it threw, its value otherwise.
\<close>

type_synonym 'a future = "(error + 'a) option"

definition encrypt_task :: "bignum \<Rightarrow> bignum \<Rightarrow> string \<Rightarrow> (string \<times> string) future" where
  "encrypt_task public_exp public_mod padded_line =
     (case substr padded_line 0 51 of
        Inl e \<Rightarrow> Some (Inl e)
      | Inr first_half \<Rightarrow>
          (case mod_exponent (string_to_bignum first_half) public_exp public_mod of
             None \<Rightarrow> None
           | Some first_encrypted \<Rightarrow>
               (case substr_from padded_line 51 of
                  Inl e \<Rightarrow> Some (Inl e)
                | Inr second_half \<Rightarrow>
                    (case mod_exponent (string_to_bignum second_half) public_exp public_mod of
                       None \<Rightarrow> None
                     | Some second_encrypted \<Rightarrow>
                         Some (Inr (to_string first_encrypted, to_string second_encrypted))))))"

text \<open>
  The reading loop frames each line in the calling thread and starts its task; an
  exception of \<^verbatim>\<open>padding\<close> leaves the loop with the tasks started so far.
\<close>

fun encrypt_lines ::
  "bignum \<Rightarrow> bignum \<Rightarrow> string list \<Rightarrow> int \<Rightarrow> (string \<times> string) future list
     \<Rightarrow> (string \<times> string) future list \<times> error option" where
  "encrypt_lines public_exp public_mod [] line_num encrypt_parallel = (encrypt_parallel, None)"
| "encrypt_lines public_exp public_mod (line # rest) line_num encrypt_parallel =
     (let line' = (if length line > MAX_CHARS_PER_CHUNK then take MAX_CHARS_PER_CHUNK line
                   else line)
      in case padding line' line_num of
           Inl e \<Rightarrow> (encrypt_parallel, Some e)
         | Inr padded_line \<Rightarrow>
             encrypt_lines public_exp public_mod rest (line_num + 1)
               (encrypt_parallel @ [encrypt_task public_exp public_mod padded_line]))"

text \<open>
  The futures are read in the order in which they were stored. The first exception met
  leaves the function, and a future of \<^verbatim>\<open>std::async\<close> waits for its task when it is
  destroyed: a task that never ends keeps the function from returning in every case.
\<close>

fun collect :: "'a future list \<Rightarrow> (error + 'a list) option" where
  "collect [] = Some (Inr [])"
| "collect (f # fs) =
     (case f of
        None \<Rightarrow> None
      | Some r \<Rightarrow>
          (case collect fs of
             None \<Rightarrow> None
           | Some rest \<Rightarrow>
               Some (case r of
                       Inl e \<Rightarrow> Inl e
                     | Inr v \<Rightarrow> (case rest of Inl e \<Rightarrow> Inl e | Inr vs \<Rightarrow> Inr (v # vs)))))"

definition large_encrypt ::
  "bignum \<Rightarrow> bignum \<Rightarrow> string \<Rightarrow> (error + (string \<times> string) list) option" where
  "large_encrypt public_exp public_mod text =
     (case encrypt_lines public_exp public_mod (getlines text) 1 [] of
        (encrypt_parallel, Some e) \<Rightarrow>
          (case collect encrypt_parallel of None \<Rightarrow> None | Some r \<Rightarrow> Some (Inl e))
      | (encrypt_parallel, None) \<Rightarrow> collect encrypt_parallel)"

function pop_back_spaces :: "string \<Rightarrow> string" where
  "pop_back_spaces s =
     (if s \<noteq> [] \<and> last s = CHR '' '' then pop_back_spaces (butlast s) else s)"
  by pat_completeness auto
termination
  by (relation "measure length") auto

declare pop_back_spaces.simps [simp del]

text \<open>
  The two exponentiations run in two threads that are both joined; the third thread
  decodes. An exception in it ends the program: it is the error of the result.
\<close>

definition large_decrypt ::
  "bignum \<Rightarrow> bignum \<Rightarrow> string \<Rightarrow> string \<Rightarrow> (error + string) option" where
  "large_decrypt priv_exp public_mod first second =
     (case mod_exponent (Bignum first) priv_exp public_mod of
        None \<Rightarrow> None
      | Some first_decrypted \<Rightarrow>
          (case mod_exponent (Bignum second) priv_exp public_mod of
             None \<Rightarrow> None
           | Some second_decrypted \<Rightarrow>
               Some (case bignum_to_string first_decrypted of
                       Inl e \<Rightarrow> Inl e
                     | Inr s1 \<Rightarrow>
                         (case bignum_to_string second_decrypted of
                            Inl e \<Rightarrow> Inl e
                          | Inr s2 \<Rightarrow>
                              (let decrypted_str = s1 @ s2
                               in case substr decrypted_str 3
                                         (nat (size_t (int (length decrypted_str) - 6))) of
                                    Inl e \<Rightarrow> Inl e
                                  | Inr s \<Rightarrow> Inr (pop_back_spaces s))))))"

subsection \<open>The two commands of main.cpp\<close>

text \<open>
  The command \<^verbatim>\<open>e\<close> joins the lines it reads, each followed by a line feed, and hands
  the text to \<^verbatim>\<open>large_encrypt\<close>; the command \<^verbatim>\<open>d\<close> calls \<^verbatim>\<open>large_decrypt\<close> on each pair in
  turn.
\<close>

definition to_encrypt :: "string list \<Rightarrow> string" where
  "to_encrypt lines = concat (map (\<lambda>line. line @ [CHR 0x0A]) lines)"

definition decrypt_lines ::
  "bignum \<Rightarrow> bignum \<Rightarrow> (string \<times> string) list \<Rightarrow> (error + string) option list" where
  "decrypt_lines priv_exp public_mod encrypted_lines =
     map (\<lambda>encrypted. large_decrypt priv_exp public_mod (fst encrypted) (snd encrypted))
       encrypted_lines"

section \<open>Properties\<close>

subsection \<open>The number a digit vector stands for\<close>

text \<open>
  \<open>value_of\<close> reads a vector as a decimal numeral, \<open>digits_ok\<close> says that every entry
  is a decimal digit, and \<open>canonical_form\<close> is the invariant of the data model: no
  leading zero unless the length is one. \<open>positive\<close> holds of the vectors of digits
  that start with a digit other than zero.
\<close>

primrec value_of :: "bignum \<Rightarrow> int" where
  "value_of [] = 0"
| "value_of (d # ds) = d * 10 ^ length ds + value_of ds"

definition digits_ok :: "bignum \<Rightarrow> bool" where
  "digits_ok ds = list_all (\<lambda>d. 0 \<le> d \<and> d \<le> 9) ds"

fun canonical_form :: "bignum \<Rightarrow> bool" where
  "canonical_form [] = True"
| "canonical_form [d] = True"
| "canonical_form (d # ds) = (d \<noteq> 0)"

definition positive :: "bignum \<Rightarrow> bool" where
  "positive b = (digits_ok b \<and> (case b of [] \<Rightarrow> False | d # ds \<Rightarrow> d \<noteq> 0))"

text \<open>
  A DecimalBigInt of the data model: a sequence of decimal digits that is not empty and
  has no leading zero unless its length is one.
\<close>

definition decimal_bigint :: "bignum \<Rightarrow> bool" where
  "decimal_bigint a = (a \<noteq> [] \<and> digits_ok a \<and> canonical_form a)"

text \<open>
  Two auxiliary readings for the subtraction loop: the number written by the last \<open>t\<close>
  entries of a vector, and the entry \<open>t\<close> places from the right (zero beyond the left end).
\<close>

definition low :: "bignum \<Rightarrow> nat \<Rightarrow> int" where
  "low x t = value_of (drop (length x - t) x)"

definition dig :: "bignum \<Rightarrow> nat \<Rightarrow> int" where
  "dig x t = (if int (length x) - 1 - int t \<ge> 0 then x ! nat (int (length x) - 1 - int t) else 0)"


subsection \<open>Frames, printable lines and keys\<close>

text \<open>
  The line number as \<^verbatim>\<open>padding\<close> writes it, and the frame that it builds for a line
  number up to 999: the number field, the content cut to 96 characters, spaces up to 99
  characters, and the number field again.
\<close>

definition line_number_field :: "int \<Rightarrow> string" where
  "line_number_field line_num = setw_fill 3 (CHR '' '') (std_to_string line_num)"

definition frame_of :: "string \<Rightarrow> int \<Rightarrow> string" where
  "frame_of line line_num =
     line_number_field line_num @ take 96 line
       @ replicate (96 - length (take 96 line)) (CHR '' '') @ line_number_field line_num"

text \<open>The frames of the lines of a text, numbered from \<open>line_num\<close> on.\<close>

fun frames :: "string list \<Rightarrow> int \<Rightarrow> string list" where
  "frames [] line_num = []"
| "frames (line # rest) line_num = frame_of line line_num # frames rest (line_num + 1)"

definition printable :: "string \<Rightarrow> bool" where
  "printable line = list_all (\<lambda>c. 32 \<le> (of_char c :: nat) \<and> (of_char c :: nat) \<le> 126) line"

text \<open>
  What the round trip needs of the three key numbers: the modulus is a DecimalBigInt
  above every encoded half frame (153 digits), the exponents are vectors of digits, and
  raising to the product of the exponents is the identity below the modulus.
\<close>

definition rsa_keys :: "bignum \<Rightarrow> bignum \<Rightarrow> bignum \<Rightarrow> bool" where
  "rsa_keys public_mod public_exp priv_exp =
     (decimal_bigint public_mod \<and> 10 ^ 153 \<le> value_of public_mod \<and>
      digits_ok public_exp \<and> public_exp \<noteq> [] \<and> digits_ok priv_exp \<and> priv_exp \<noteq> [] \<and>
      (\<forall>m. 0 \<le> m \<and> m < value_of public_mod \<longrightarrow>
         m ^ nat (value_of public_exp * value_of priv_exp) mod value_of public_mod = m))"

text \<open>Encrypting a text and decrypting every pair of the result, as the two commands do.\<close>

definition round_trip ::
  "bignum \<Rightarrow> bignum \<Rightarrow> bignum \<Rightarrow> string \<Rightarrow> (error + string) option list option" where
  "round_trip public_mod public_exp priv_exp text =
     (case large_encrypt public_exp public_mod text of
        Some (Inr encrypted_lines) \<Rightarrow> Some (decrypt_lines priv_exp public_mod encrypted_lines)
      | _ \<Rightarrow> None)"

section \<open>Arithmetic\<close>

subsection \<open>Subtraction\<close>

lemma value_of_append: "value_of (xs @ ys) = value_of xs * 10 ^ length ys + value_of ys"
  by (induction xs) (simp_all add: power_add algebra_simps)

lemma digits_ok_Cons [simp]: "digits_ok (d # ds) \<longleftrightarrow> 0 \<le> d \<and> d \<le> 9 \<and> digits_ok ds"
  by (simp add: digits_ok_def)

lemma digits_ok_Nil [simp]: "digits_ok []"
  by (simp add: digits_ok_def)

lemma digits_ok_append [simp]: "digits_ok (xs @ ys) \<longleftrightarrow> digits_ok xs \<and> digits_ok ys"
  by (simp add: digits_ok_def)

lemma digits_ok_nth: "digits_ok xs \<Longrightarrow> k < length xs \<Longrightarrow> 0 \<le> xs ! k \<and> xs ! k \<le> 9"
  by (simp add: digits_ok_def list_all_length)

lemma digits_ok_drop: "digits_ok xs \<Longrightarrow> digits_ok (drop k xs)"
  by (metis append_take_drop_id digits_ok_append)

lemma digits_ok_take: "digits_ok xs \<Longrightarrow> digits_ok (take k xs)"
  by (metis append_take_drop_id digits_ok_append)

lemma digits_ok_replicate [simp]: "digits_ok (replicate n 0)"
  by (simp add: digits_ok_def list_all_length)

lemma digits_ok_update: "digits_ok xs \<Longrightarrow> 0 \<le> v \<Longrightarrow> v \<le> 9 \<Longrightarrow> digits_ok (xs[k := v])"
  using set_update_subset_insert[of xs k v] by (auto simp: digits_ok_def list_all_iff)

lemma value_of_nonneg: "digits_ok xs \<Longrightarrow> 0 \<le> value_of xs"
  by (induction xs) simp_all

lemma value_of_less: "digits_ok xs \<Longrightarrow> value_of xs < 10 ^ length xs"
proof (induction xs)
  case Nil
  then show ?case by simp
next
  case (Cons d ds)
  then have "d * 10 ^ length ds \<le> 9 * 10 ^ length ds" by simp
  moreover have "value_of ds < 10 ^ length ds" using Cons by simp
  ultimately have "d * 10 ^ length ds + value_of ds < 10 * 10 ^ length ds" by linarith
  then show ?case by simp
qed

lemma value_of_replicate [simp]: "value_of (replicate n 0) = 0"
  by (induction n) simp_all

lemma value_of_remove_excess [simp]: "value_of (remove_excess xs) = value_of xs"
  by (induction xs rule: remove_excess.induct) simp_all

lemma digits_ok_remove_excess: "digits_ok xs \<Longrightarrow> digits_ok (remove_excess xs)"
  by (induction xs rule: remove_excess.induct) simp_all

lemma canonical_form_remove_excess: "canonical_form (remove_excess xs)"
  by (induction xs rule: remove_excess.induct) simp_all

lemma length_remove_excess: "xs \<noteq> [] \<Longrightarrow> remove_excess xs \<noteq> []"
  by (induction xs rule: remove_excess.induct) simp_all

lemma low_Suc: "low x (Suc t) = dig x t * 10 ^ t + low x t"
proof (cases "t < length x")
  case True
  then have eq: "drop (length x - Suc t) x = x ! (length x - Suc t) # drop (length x - t) x"
    by (metis Cons_nth_drop_Suc Suc_diff_Suc diff_less zero_less_Suc less_imp_diff_less Suc_diff_le  diff_Suc_less length_greater_0_conv list.size(3) not_less0)
  have "nat (int (length x) - 1 - int t) = length x - Suc t" using True by simp
  with True eq show ?thesis by (simp add: low_def dig_def)
next
  case False
  then show ?thesis by (simp add: low_def dig_def)
qed

lemma low_all: "length x \<le> t \<Longrightarrow> low x t = value_of x"
  by (simp add: low_def)

lemma low_0 [simp]: "low x 0 = 0"
  by (simp add: low_def)

lemma drop_update_at: "k < length xs \<Longrightarrow> drop k (xs[k := v]) = v # drop (Suc k) xs"
  by (metis Cons_nth_drop_Suc drop_update_cancel length_list_update lessI nth_list_update_eq)

lemma minus_loop_inv:
  assumes "length difference = n" "k \<le> n"
    and "i = int (length a) - 1 - int (n - k)" "j = int (length b) - 1 - int (n - k)"
    and "digits_ok a" "digits_ok b"
    and "borrow = 0 \<or> borrow = 1"
    and "digits_ok (drop k difference)"
    and "value_of (drop k difference) = low a (n - k) - low b (n - k) + borrow * 10 ^ (n - k)"
  shows "\<exists>borrow'. (borrow' = 0 \<or> borrow' = 1) \<and>
           length (minus_loop a b i j k borrow difference) = n \<and>
           digits_ok (minus_loop a b i j k borrow difference) \<and>
           value_of (minus_loop a b i j k borrow difference) = low a n - low b n + borrow' * 10 ^ n"
  using assms
proof (induction k arbitrary: i j borrow difference)
  case 0
  then show ?case by auto
next
  case (Suc k)
  let ?t = "n - Suc k"
  have t: "n - k = Suc ?t" using Suc.prems(2) by simp
  have fd: "(if i \<ge> 0 then a ! nat i else 0) = dig a ?t"
    using Suc.prems(3) by (simp add: dig_def)
  have sd: "(if j \<ge> 0 then b ! nat j else 0) = dig b ?t"
    using Suc.prems(4) by (simp add: dig_def)
  have da: "0 \<le> dig a ?t \<and> dig a ?t \<le> 9"
    using digits_ok_nth[OF Suc.prems(5)] by (simp add: dig_def)
  have db: "0 \<le> dig b ?t \<and> dig b ?t \<le> 9"
    using digits_ok_nth[OF Suc.prems(6)] by (simp add: dig_def)
  define c where "c = dig a ?t - dig b ?t - borrow"
  define borrow' where "borrow' = (if c < 0 then 1 else 0::int)"
  define c' where "c' = (if c < 0 then c + 10 else c)"
  define diff' where "diff' = difference[k := c']"
  have step: "minus_loop a b i j (Suc k) borrow difference
      = minus_loop a b (i - 1) (j - 1) k borrow' diff'"
    using fd sd by (simp add: Let_def c_def borrow'_def c'_def diff'_def)
  have klt: "k < length difference" using Suc.prems(1,2) by simp
  have dr: "drop k diff' = c' # drop (Suc k) difference"
    unfolding diff'_def using klt by (rule drop_update_at)
  have len: "length (drop (Suc k) difference) = ?t" using Suc.prems(1) by simp
  have c'r: "0 \<le> c' \<and> c' \<le> 9"
    using da db Suc.prems(7) by (auto simp: c'_def c_def)
  have c'e: "c' = dig a ?t - dig b ?t - borrow + 10 * borrow'"
    by (simp add: c'_def borrow'_def c_def)
  have v: "value_of (drop k diff') = low a (n - k) - low b (n - k) + borrow' * 10 ^ (n - k)"
    unfolding dr t low_Suc using Suc.prems(9) len by (simp add: c'e algebra_simps)
  have "\<exists>b''. (b'' = 0 \<or> b'' = 1) \<and>
           length (minus_loop a b (i - 1) (j - 1) k borrow' diff') = n \<and>
           digits_ok (minus_loop a b (i - 1) (j - 1) k borrow' diff') \<and>
           value_of (minus_loop a b (i - 1) (j - 1) k borrow' diff') = low a n - low b n + b'' * 10 ^ n"
  proof (rule Suc.IH)
    show "length diff' = n" using Suc.prems(1) by (simp add: diff'_def)
    show "k \<le> n" using Suc.prems(2) by simp
    show "i - 1 = int (length a) - 1 - int (n - k)" using Suc.prems(2,3) by simp
    show "j - 1 = int (length b) - 1 - int (n - k)" using Suc.prems(2,4) by simp
    show "digits_ok a" "digits_ok b" by fact+
    show "borrow' = 0 \<or> borrow' = 1" by (simp add: borrow'_def)
    show "digits_ok (drop k diff')" unfolding dr using c'r digits_ok_drop[OF _] Suc.prems(8)
      by (metis digits_ok_Cons digits_ok_drop drop_drop plus_1_eq_Suc)
    show "value_of (drop k diff') = low a (n - k) - low b (n - k) + borrow' * 10 ^ (n - k)" by (rule v)
  qed
  then show ?case unfolding step .
qed

lemma op_minus_correct:
  assumes "digits_ok a" "digits_ok b" "value_of b \<le> value_of a"
  shows "value_of (op_minus a b) = value_of a - value_of b" 
    and "digits_ok (op_minus a b)"
proof -
  define n where "n = max (length a) (length b)"
  define r where "r = minus_loop a b (int (length a) - 1) (int (length b) - 1) n 0 (replicate n 0)"
  have "\<exists>borrow'. (borrow' = 0 \<or> borrow' = 1) \<and> length r = n \<and> digits_ok r \<and>
           value_of r = low a n - low b n + borrow' * 10 ^ n"
    unfolding r_def
    by (rule minus_loop_inv) (simp_all add: assms)
  then obtain bw where bw: "bw = 0 \<or> bw = 1" "length r = n" "digits_ok r"
     "value_of r = low a n - low b n + bw * 10 ^ n" by blast
  have la: "low a n = value_of a" and lb: "low b n = value_of b"
    by (simp_all add: low_all n_def)
  have "value_of r < 10 ^ n" using value_of_less[OF bw(3)] bw(2) by simp
  moreover have "0 \<le> value_of a - value_of b" using assms by simp
  ultimately have "bw = 0" using bw(1,4) la lb by auto
  then have "value_of r = value_of a - value_of b" using bw(4) la lb by simp
  moreover have "op_minus a b = remove_excess r"
    by (simp add: op_minus_def Let_def r_def n_def)
  ultimately show "value_of (op_minus a b) = value_of a - value_of b" 
    and "digits_ok (op_minus a b)" using bw(3) by (simp_all add: digits_ok_remove_excess)
qed

subsection \<open>Multiplication\<close>

lemma sdiv_smod_nonneg: "0 \<le> (x::int) \<Longrightarrow> x sdiv 10 = x div 10 \<and> x smod 10 = x mod 10"
  by (cases "x = 0") (simp_all add: signed_divide_int_def signed_modulo_int_def)

lemma value_of_update:
  "k < length xs \<Longrightarrow> value_of (xs[k := v]) = value_of xs + (v - xs ! k) * 10 ^ (length xs - 1 - k)"
proof (induction xs arbitrary: k)
  case Nil
  then show ?case by simp
next
  case (Cons x xs)
  show ?case
  proof (cases k)
    case 0
    then show ?thesis by (simp add: algebra_simps)
  next
    case (Suc k')
    with Cons show ?thesis by simp
  qed
qed

lemma value_of_take_Suc:
  "j < length b \<Longrightarrow> value_of (take (Suc j) b) = value_of (take j b) * 10 + b ! j"
  by (simp add: take_Suc_conv_app_nth value_of_append)

lemma times_inner_value:
  assumes "j \<le> length b" "i < length a" "length product = length a + length b"
  shows "length (fst (times_inner a b i j c product)) = length product \<and>
     value_of (fst (times_inner a b i j c product))
       + snd (times_inner a b i j c product) * 10 ^ (length a - 1 - i) * 10 ^ length b
     = value_of product + c * 10 ^ (length a - 1 - i) * 10 ^ (length b - j)
       + a ! i * value_of (take j b) * 10 ^ (length b - j) * 10 ^ (length a - 1 - i)"
  using assms
proof (induction j arbitrary: c product)
  case 0
  then show ?case by simp
next
  case (Suc j)
  define x where "x = a ! i * b ! j + product ! (i + j + 1) + c"
  define p1 where "p1 = product[i + j + 1 := x smod 10]"
  define m where "m = length b - Suc j"
  define E where "E = (10::int) ^ (length a - 1 - i)"
  have lbj: "length b - j = Suc m" using Suc.prems(1) by (simp add: m_def)
  have step: "times_inner a b i (Suc j) c product = times_inner a b i j (x sdiv 10) p1"
    by (simp add: x_def p1_def Let_def)
  have idx: "i + j + 1 < length product" using Suc.prems by simp
  have ex: "length product - 1 - (i + j + 1) = (length a - 1 - i) + m"
    using Suc.prems by (simp add: m_def)
  have vp1: "value_of p1 = value_of product + (x smod 10 - product ! (i + j + 1)) * E * 10 ^ m"
    unfolding p1_def value_of_update[OF idx] ex E_def by (simp add: power_add)
  have IH: "length (fst (times_inner a b i j (x sdiv 10) p1)) = length p1 \<and>
     value_of (fst (times_inner a b i j (x sdiv 10) p1))
       + snd (times_inner a b i j (x sdiv 10) p1) * E * 10 ^ length b
     = value_of p1 + (x sdiv 10) * E * 10 ^ (length b - j)
       + a ! i * value_of (take j b) * 10 ^ (length b - j) * E"
    unfolding E_def using Suc.prems by (intro Suc.IH) (simp_all add: p1_def)
  have xs: "x sdiv 10 * 10 + x smod 10 = x" by (rule sdiv_mult_smod_eq)
  have "value_of p1 + (x sdiv 10) * E * 10 ^ (length b - j)
      = value_of product + (x sdiv 10 * 10 + x smod 10 - product ! (i + j + 1)) * E * 10 ^ m"
    unfolding vp1 lbj by (simp add: algebra_simps)
  also have "\<dots> = value_of product + (a ! i * b ! j + c) * E * 10 ^ m"
    unfolding xs by (simp add: x_def)
  finally have A: "value_of p1 + (x sdiv 10) * E * 10 ^ (length b - j)
      = value_of product + (a ! i * b ! j + c) * E * 10 ^ m" .
  have jl: "j < length b" using Suc.prems(1) by simp
  have B: "a ! i * value_of (take (Suc j) b) * 10 ^ m * E
      = a ! i * b ! j * E * 10 ^ m + a ! i * value_of (take j b) * 10 ^ (length b - j) * E"
    unfolding value_of_take_Suc[OF jl] lbj by (simp add: algebra_simps)
  have "value_of (fst (times_inner a b i j (x sdiv 10) p1))
       + snd (times_inner a b i j (x sdiv 10) p1) * E * 10 ^ length b
     = value_of product + c * E * 10 ^ m + a ! i * value_of (take (Suc j) b) * 10 ^ m * E"
    using IH A B by (simp add: algebra_simps)
  moreover have "length p1 = length product" by (simp add: p1_def)
  ultimately show ?case unfolding step using IH by (simp add: E_def m_def)
qed

lemma times_inner_digits:
  assumes "j \<le> length b" "i < length a" "length product = length a + length b"
    and "digits_ok a" "digits_ok b" "digits_ok product" "0 \<le> c" "c \<le> 9"
  shows "digits_ok (fst (times_inner a b i j c product)) \<and>
     0 \<le> snd (times_inner a b i j c product) \<and> snd (times_inner a b i j c product) \<le> 9 \<and>
     (\<forall>k \<le> i. fst (times_inner a b i j c product) ! k = product ! k)"
  using assms
proof (induction j arbitrary: c product)
  case 0
  then show ?case by simp
next
  case (Suc j)
  define x where "x = a ! i * b ! j + product ! (i + j + 1) + c"
  define p1 where "p1 = product[i + j + 1 := x smod 10]"
  have step: "times_inner a b i (Suc j) c product = times_inner a b i j (x sdiv 10) p1"
    by (simp add: x_def p1_def Let_def)
  have ai: "0 \<le> a ! i \<and> a ! i \<le> 9" using digits_ok_nth[OF Suc.prems(4,2)] .
  have bj: "0 \<le> b ! j \<and> b ! j \<le> 9" using digits_ok_nth[OF Suc.prems(5)] Suc.prems(1) by simp
  have pj: "0 \<le> product ! (i + j + 1) \<and> product ! (i + j + 1) \<le> 9"
    using digits_ok_nth[OF Suc.prems(6)] Suc.prems(1,2,3) by simp
  have "a ! i * b ! j \<le> 9 * 9" using ai bj by (intro mult_mono) auto
  moreover have "0 \<le> a ! i * b ! j" using ai bj by simp
  ultimately have xr: "0 \<le> x \<and> x \<le> 99" using pj Suc.prems(7,8) by (simp add: x_def)
  then have sd: "x sdiv 10 = x div 10" and sm: "x smod 10 = x mod 10"
    using sdiv_smod_nonneg by simp_all
  have c1: "0 \<le> x sdiv 10 \<and> x sdiv 10 \<le> 9" unfolding sd using xr by auto
  have d1: "0 \<le> x smod 10 \<and> x smod 10 \<le> 9" unfolding sm using xr by auto
  have ok1: "digits_ok p1" unfolding p1_def using Suc.prems(6) d1 by (simp add: digits_ok_update)
  have IH: "digits_ok (fst (times_inner a b i j (x sdiv 10) p1)) \<and>
     0 \<le> snd (times_inner a b i j (x sdiv 10) p1) \<and> snd (times_inner a b i j (x sdiv 10) p1) \<le> 9 \<and>
     (\<forall>k \<le> i. fst (times_inner a b i j (x sdiv 10) p1) ! k = p1 ! k)"
    using Suc.prems c1 ok1 by (intro Suc.IH) (simp_all add: p1_def)
  have "\<forall>k\<le>i. p1 ! k = product ! k" by (simp add: p1_def)
  with IH show ?case unfolding step by simp
qed

lemma times_outer_correct:
  assumes "c \<le> length a" "length product = length a + length b"
    and "digits_ok a" "digits_ok b" "digits_ok product" "\<forall>k<c. product ! k = 0"
  shows "digits_ok (times_outer a b c product) \<and>
     value_of (times_outer a b c product)
       = value_of product + value_of (take c a) * 10 ^ (length a - c) * value_of b"
  using assms
proof (induction c arbitrary: product)
  case 0
  then show ?case by simp
next
  case (Suc i)
  have il: "i < length a" using Suc.prems(1) by simp
  have la: "length a - i = Suc (length a - Suc i)" using il by simp
  have tk: "value_of (take (Suc i) a) = value_of (take i a) * 10 + a ! i"
    using il by (rule value_of_take_Suc)
  show ?case
  proof (cases "a ! i = 0")
    case True
    have "digits_ok (times_outer a b i product) \<and>
     value_of (times_outer a b i product)
       = value_of product + value_of (take i a) * 10 ^ (length a - i) * value_of b"
      using Suc.prems by (intro Suc.IH) simp_all
    then show ?thesis using True unfolding tk la by (simp add: algebra_simps)
  next
    case False
    define r where "r = times_inner a b i (length b) 0 product"
    define p2 where "p2 = (fst r)[i := fst r ! i + snd r]"
    have step: "times_outer a b (Suc i) product = times_outer a b i p2"
      using False by (simp add: r_def p2_def split: prod.splits)
    have V: "length (fst r) = length product \<and>
       value_of (fst r) + snd r * 10 ^ (length a - 1 - i) * 10 ^ length b
        = value_of product + a ! i * value_of b * 10 ^ (length a - 1 - i)"
      using times_inner_value[of "length b" b i a product 0] il Suc.prems(2)
      by (simp add: r_def)
    have D: "digits_ok (fst r) \<and> 0 \<le> snd r \<and> snd r \<le> 9 \<and> (\<forall>k \<le> i. fst r ! k = product ! k)"
      unfolding r_def using il Suc.prems by (intro times_inner_digits) simp_all
    have ri: "fst r ! i = 0" using D Suc.prems(6) by simp
    have ilen: "i < length (fst r)" using V il Suc.prems(2) by simp
    have ex: "length (fst r) - 1 - i = (length a - 1 - i) + length b"
      using V il Suc.prems(2) by simp
    have vp2: "value_of p2 = value_of product + a ! i * value_of b * 10 ^ (length a - 1 - i)"
      unfolding p2_def value_of_update[OF ilen] ex using V ri by (simp add: power_add algebra_simps)
    have ok2: "digits_ok p2" unfolding p2_def using D ri by (simp add: digits_ok_update)
    have z2: "\<forall>k<i. p2 ! k = 0" using D Suc.prems(6) by (simp add: p2_def)
    have "digits_ok (times_outer a b i p2) \<and>
     value_of (times_outer a b i p2)
       = value_of p2 + value_of (take i a) * 10 ^ (length a - i) * value_of b"
      using Suc.prems ok2 z2 V by (intro Suc.IH) (simp_all add: p2_def)
    moreover have "length a - 1 - i = length a - Suc i" by simp
    ultimately show ?thesis unfolding step vp2 tk la by (simp add: algebra_simps)
  qed
qed

lemma op_times_correct:
  assumes "digits_ok a" "digits_ok b"
  shows "value_of (op_times a b) = value_of a * value_of b" and "digits_ok (op_times a b)"
proof -
  have "digits_ok (times_outer a b (length a) (replicate (length a + length b) 0)) \<and>
     value_of (times_outer a b (length a) (replicate (length a + length b) 0))
       = value_of (replicate (length a + length b) 0)
         + value_of (take (length a) a) * 10 ^ (length a - length a) * value_of b"
    using assms by (intro times_outer_correct) simp_all
  then show "value_of (op_times a b) = value_of a * value_of b" and "digits_ok (op_times a b)"
    by (simp_all add: op_times_def Let_def digits_ok_remove_excess)
qed

subsection \<open>Comparison, division and remainder\<close>

lemma positive_Cons: "positive (d # ds) \<longleftrightarrow> 0 < d \<and> d \<le> 9 \<and> digits_ok ds"
  by (auto simp: positive_def)

lemma value_of_ge: "positive b \<Longrightarrow> 10 ^ (length b - 1) \<le> value_of b"
proof (cases b)
  case Nil
  then show "positive b \<Longrightarrow> ?thesis" by (simp add: positive_def)
next
  case (Cons d ds)
  assume "positive b"
  then have d: "1 \<le> d" and ok: "digits_ok ds" using Cons by (simp_all add: positive_Cons)
  have "1 * 10 ^ length ds \<le> d * 10 ^ length ds" using d by (intro mult_right_mono) simp_all
  then have "10 ^ length ds \<le> d * 10 ^ length ds + value_of ds"
    using value_of_nonneg[OF ok] by linarith
  then show ?thesis using Cons by simp
qed

lemma positive_value: "positive b \<Longrightarrow> 0 < value_of b"
  using value_of_ge[of b] by (smt (verit) zero_less_power)

lemma positive_digits_ok: "positive b \<Longrightarrow> digits_ok b"
  by (simp add: positive_def)

lemma lexicographical_compare_value:
  "length a = length b \<Longrightarrow> digits_ok a \<Longrightarrow> digits_ok b \<Longrightarrow>
     lexicographical_compare a b \<longleftrightarrow> value_of a < value_of b"
proof (induction a b rule: list_induct2)
  case Nil
  then show ?case by simp
next
  case (Cons x xs y ys)
  let ?p = "(10::int) ^ length ys"
  have xs: "0 \<le> value_of xs" "value_of xs < ?p"
    using Cons.prems(1) Cons.hyps value_of_nonneg[of xs] value_of_less[of xs] by simp_all
  have ys: "0 \<le> value_of ys" "value_of ys < ?p"
    using Cons.prems(2) value_of_nonneg[of ys] value_of_less[of ys] by simp_all
  consider "x < y" | "y < x" | "x = y" by linarith
  then show ?case
  proof cases
    case 1
    then have "(x + 1) * ?p \<le> y * ?p" by (intro mult_right_mono) simp_all
    then have "x * ?p + value_of xs < y * ?p + value_of ys"
      using xs ys by (simp add: algebra_simps)
    then show ?thesis using 1 Cons.hyps by simp
  next
    case 2
    then have "(y + 1) * ?p \<le> x * ?p" by (intro mult_right_mono) simp_all
    then have "y * ?p + value_of ys < x * ?p + value_of xs"
      using xs ys by (simp add: algebra_simps)
    then show ?thesis using 2 Cons.hyps by simp
  next
    case 3
    then show ?thesis using Cons by simp
  qed
qed

lemma canonical_long_positive:
  "canonical_form a \<Longrightarrow> digits_ok a \<Longrightarrow> 2 \<le> length a \<Longrightarrow> positive a"
  by (cases a rule: canonical_form.cases) (auto simp: positive_def)

lemma op_less_correct:
  assumes "digits_ok a" "canonical_form a" "positive b"
  shows "op_less a b \<longleftrightarrow> value_of a < value_of b"
proof -
  have okb: "digits_ok b" using assms(3) by (rule positive_digits_ok)
  have lb: "1 \<le> length b" using assms(3) by (cases b) (simp_all add: positive_def)
  consider "length a < length b" | "length b < length a" | "length a = length b" by linarith
  then show ?thesis
  proof cases
    case 1
    have "value_of a < 10 ^ length a" using assms(1) by (rule value_of_less)
    also have "\<dots> \<le> (10::int) ^ (length b - 1)" using 1 by (intro power_increasing) simp_all
    also have "\<dots> \<le> value_of b" using assms(3) by (rule value_of_ge)
    finally show ?thesis using 1 by (simp add: op_less_def)
  next
    case 2
    then have "positive a" using assms(1,2) lb by (intro canonical_long_positive) simp_all
    have "value_of b < 10 ^ length b" using okb by (rule value_of_less)
    also have "\<dots> \<le> (10::int) ^ (length a - 1)" using 2 by (intro power_increasing) simp_all
    also have "\<dots> \<le> value_of a" using \<open>positive a\<close> by (rule value_of_ge)
    finally show ?thesis using 2 by (simp add: op_less_def)
  next
    case 3
    then show ?thesis using assms(1) okb by (simp add: op_less_def lexicographical_compare_value)
  qed
qed

lemma op_minus_canonical: "canonical_form (op_minus a b)"
  by (simp add: op_minus_def Let_def canonical_form_remove_excess)

lemma op_times_canonical: "canonical_form (op_times a b)"
  by (simp add: op_times_def Let_def canonical_form_remove_excess)

lemma div_mult_le_int: "0 < (b::int) \<Longrightarrow> a div b * b \<le> a"
  using div_mult_mod_eq[of a b] pos_mod_sign[of b a] by linarith

lemma div_bound_9:
  assumes "0 < (b::int)" "r < 10 * b"
  shows "r div b \<le> 9"
proof (rule ccontr)
  assume "\<not> r div b \<le> 9"
  then have "10 \<le> r div b" by simp
  then have "10 * b \<le> r div b * b" using assms(1) by (intro mult_right_mono) simp_all
  then show False using div_mult_le_int[OF assms(1), of r] assms(2) by linarith
qed

lemma div_loop_correct:
  assumes "digits_ok rem" "canonical_form rem" "positive b"
  shows "\<exists>rem'. div_loop rem b c = Some (rem', c + value_of rem div value_of b) \<and>
            digits_ok rem' \<and> canonical_form rem' \<and>
            value_of rem' = value_of rem mod value_of b"
  using assms(1,2)
proof (induction "nat (value_of rem)" arbitrary: rem c rule: less_induct)
  case less
  have B: "0 < value_of b" using assms(3) by (rule positive_value)
  have R: "0 \<le> value_of rem" using less.prems(1) by (rule value_of_nonneg)
  show ?case
  proof (cases "op_less rem b")
    case True
    then have "value_of rem < value_of b" using less.prems assms(3) by (simp add: op_less_correct)
    then have "value_of rem div value_of b = 0" "value_of rem mod value_of b = value_of rem"
      using R by simp_all
    moreover have "div_loop rem b c = Some (rem, c)" using True by (subst div_loop.simps) simp
    ultimately show ?thesis using less.prems by simp
  next
    case False
    then have ge: "value_of b \<le> value_of rem"
      using less.prems assms(3) by (simp add: op_less_correct)
    define rem1 where "rem1 = op_minus rem b"
    have v1: "value_of rem1 = value_of rem - value_of b" and ok1: "digits_ok rem1"
      unfolding rem1_def using less.prems(1) positive_digits_ok[OF assms(3)] ge
      by (rule op_minus_correct)+
    have c1: "canonical_form rem1" unfolding rem1_def by (rule op_minus_canonical)
    have "nat (value_of rem1) < nat (value_of rem)" using v1 B ge by simp
    then have "\<exists>rem'. div_loop rem1 b (c + 1) = Some (rem', c + 1 + value_of rem1 div value_of b) \<and>
            digits_ok rem' \<and> canonical_form rem' \<and>
            value_of rem' = value_of rem1 mod value_of b"
      using ok1 c1 by (rule less.hyps)
    moreover have "value_of rem1 div value_of b = value_of rem div value_of b - 1"
      unfolding v1 using B div_add_self2[of "value_of b" "value_of rem - value_of b"] by simp
    moreover have "value_of rem1 mod value_of b = value_of rem mod value_of b"
      unfolding v1 by simp
    moreover have "div_loop rem b c = div_loop rem1 b (c + 1)"
      using False by (subst div_loop.simps) (simp add: rem1_def)
    ultimately show ?thesis by simp
  qed
qed

lemma erase_leading_zeros_props:
  "value_of (erase_leading_zeros xs) = value_of xs"
  "digits_ok xs \<Longrightarrow> digits_ok (erase_leading_zeros xs)"
  "canonical_form (erase_leading_zeros xs)"
proof (induction xs)
  case Nil
  { case 1 show ?case by simp }
  { case 2 show ?case by simp }
  { case 3 show ?case by simp }
next
  case (Cons d ds)
  { case 1 then show ?case using Cons.IH(1) by simp }
  { case 2 then show ?case using Cons.IH(2) by simp }
  { case 3 then show ?case using Cons.IH(3) by (cases ds) simp_all }
qed

lemma div_digits_correct:
  assumes "positive b"
  shows "digits_ok rest \<Longrightarrow> digits_ok quo \<Longrightarrow> digits_ok rem \<Longrightarrow> canonical_form rem \<Longrightarrow>
     value_of rem < value_of b \<Longrightarrow>
     \<exists>q. div_digits rest b quo rem = Some q \<and> digits_ok q \<and> length q = length quo + length rest \<and>
       value_of q = value_of quo * 10 ^ length rest
          + (value_of rem * 10 ^ length rest + value_of rest) div value_of b"
proof (induction rest arbitrary: quo rem)
  case Nil
  then show ?case using value_of_nonneg[of rem] by simp
next
  case (Cons d rest)
  have B: "0 < value_of b" using assms by (rule positive_value)
  define rem1 where "rem1 = erase_leading_zeros (rem @ [d])"
  define R where "R = value_of rem * 10 + d"
  let ?P = "(10::int) ^ length rest"
  have d: "0 \<le> d" "d \<le> 9" and okrest: "digits_ok rest" using Cons.prems(1) by simp_all
  have v1: "value_of rem1 = R"
    by (simp add: rem1_def R_def erase_leading_zeros_props value_of_append)
  have ok1: "digits_ok rem1" unfolding rem1_def using Cons.prems(3) d
    by (intro erase_leading_zeros_props) simp
  have c1: "canonical_form rem1" unfolding rem1_def by (rule erase_leading_zeros_props)
  obtain rem' where l: "div_loop rem1 b 0 = Some (rem', 0 + value_of rem1 div value_of b)"
      and ok': "digits_ok rem'" and c': "canonical_form rem'"
      and v': "value_of rem' = value_of rem1 mod value_of b"
    using div_loop_correct[OF ok1 c1 assms, of 0] by blast
  define cd where "cd = R div value_of b"
  have R0: "0 \<le> R" using value_of_nonneg[OF Cons.prems(3)] d by (simp add: R_def)
  have R10: "R < 10 * value_of b" using Cons.prems(5) d by (simp add: R_def)
  have cd: "0 \<le> cd" "cd \<le> 9"
    unfolding cd_def using R0 R10 B by (simp_all add: pos_imp_zdiv_nonneg_iff div_bound_9)
  have step: "div_digits (d # rest) b quo rem = div_digits rest b (quo @ [cd]) rem'"
    using l by (simp add: rem1_def[symmetric] v1 cd_def)
  have rl: "value_of rem' < value_of b" unfolding v' using B by simp
  obtain q where q: "div_digits rest b (quo @ [cd]) rem' = Some q" "digits_ok q"
     "length q = length (quo @ [cd]) + length rest"
     "value_of q = value_of (quo @ [cd]) * ?P + (value_of rem' * ?P + value_of rest) div value_of b"
    using Cons.IH[OF okrest _ ok' c' rl, of "quo @ [cd]"] Cons.prems(2) cd by auto
  have Req: "R = cd * value_of b + value_of rem'" unfolding v' v1 cd_def by simp
  have "(value_of rem * 10 ^ length (d # rest) + value_of (d # rest)) div value_of b
      = (R * ?P + value_of rest) div value_of b" by (simp add: R_def algebra_simps)
  also have "R * ?P + value_of rest = (value_of rem' * ?P + value_of rest) + (cd * ?P) * value_of b"
    unfolding Req by (simp add: algebra_simps)
  also have "\<dots> div value_of b = cd * ?P + (value_of rem' * ?P + value_of rest) div value_of b"
    using B by simp
  finally have "value_of q = value_of quo * 10 ^ length (d # rest)
     + (value_of rem * 10 ^ length (d # rest) + value_of (d # rest)) div value_of b"
    using q(4) by (simp add: value_of_append algebra_simps)
  then show ?case unfolding step using q by simp
qed

lemma Bignum_digit [simp]: "Bignum ''0'' = [0]" "Bignum ''1'' = [1]" "Bignum ''2'' = [2]"
  by (simp_all add: Bignum_def char_to_int_def)

lemma op_div_correct:
  assumes "digits_ok a" "positive b"
  shows "\<exists>q. op_div a b = Some q \<and> digits_ok q \<and> canonical_form q \<and> q \<noteq> [] \<and>
           value_of q = value_of a div value_of b"
proof -
  have B: "0 < value_of b" using assms(2) by (rule positive_value)
  obtain q where q: "div_digits a b [0] [] = Some q" "digits_ok q"
     "length q = length [0::int] + length a"
     "value_of q = value_of [0] * 10 ^ length a + (value_of [] * 10 ^ length a + value_of a) div value_of b"
    using div_digits_correct[OF assms(2) assms(1), of "[0]" "[]"] B by auto
  have "q \<noteq> []" using q(3) by auto
  then show ?thesis using q
    by (simp add: op_div_def digits_ok_remove_excess canonical_form_remove_excess length_remove_excess)
qed

lemma op_minus_nonempty: "a \<noteq> [] \<or> b \<noteq> [] \<Longrightarrow> op_minus a b \<noteq> []"
proof -
  have len: "length (minus_loop a b i j k borrow d) = length d" for i j k borrow d
    by (induction k arbitrary: i j borrow d) (simp_all add: Let_def)
  assume "a \<noteq> [] \<or> b \<noteq> []"
  then have "minus_loop a b (int (length a) - 1) (int (length b) - 1) (max (length a) (length b)) 0
      (replicate (max (length a) (length b)) 0) \<noteq> []"
    using len[of "int (length a) - 1" "int (length b) - 1" "max (length a) (length b)" 0
        "replicate (max (length a) (length b)) 0"]
    by (metis length_0_conv length_replicate max_nat.eq_neutr_iff)
  then show ?thesis by (simp add: op_minus_def Let_def length_remove_excess)
qed

lemma op_mod_correct:
  assumes "digits_ok a" "positive b"
  shows "\<exists>r. op_mod a b = Some r \<and> digits_ok r \<and> canonical_form r \<and> r \<noteq> [] \<and>
           value_of r = value_of a mod value_of b"
proof -
  have B: "0 < value_of b" using assms(2) by (rule positive_value)
  have A: "0 \<le> value_of a" using assms(1) by (rule value_of_nonneg)
  have okb: "digits_ok b" using assms(2) by (rule positive_digits_ok)
  obtain q where q: "op_div a b = Some q" "digits_ok q" "value_of q = value_of a div value_of b"
    using op_div_correct[OF assms] by blast
  define m where "m = op_times q b"
  have vm: "value_of m = value_of a div value_of b * value_of b" and okm: "digits_ok m"
    unfolding m_def using op_times_correct[OF q(2) okb] q(3) by simp_all
  have le: "value_of m \<le> value_of a" unfolding vm using B by (rule div_mult_le_int)
  have "value_of (op_minus a m) = value_of a - value_of m" "digits_ok (op_minus a m)"
    using assms(1) okm le by (rule op_minus_correct)+
  moreover have "b \<noteq> []" using assms(2) by (auto simp: positive_def)
  then have "m \<noteq> []"
  proof -
    have "length (times_outer x y c p) = length p" for x y c p
    proof (induction c arbitrary: p)
      case 0 show ?case by simp
    next
      case (Suc c)
      have il: "length (fst (times_inner x y i j cr pr)) = length pr" for i j cr pr
        by (induction j arbitrary: cr pr) (simp_all add: Let_def)
      show ?case using Suc il[of c "length y" 0 p] by (simp split: prod.splits) (metis fst_conv)
    qed
    then have "times_outer q b (length q) (replicate (length q + length b) 0) \<noteq> []"
      using \<open>b \<noteq> []\<close> by (metis add_is_0 length_0_conv length_replicate)
    then show ?thesis by (simp add: m_def op_times_def Let_def length_remove_excess)
  qed
  ultimately show ?thesis
    using q(1) vm by (simp add: op_mod_def m_def op_minus_canonical op_minus_nonempty minus_div_mult_eq_mod)
qed

subsection \<open>Modular exponentiation\<close>

lemma sdiv_smod_nonneg_2: "0 \<le> (x::int) \<Longrightarrow> x smod 2 = x mod 2"
  by (cases "x = 0") (simp_all add: signed_modulo_int_def)

lemma canonical_zero:
  assumes "canonical_form e" "digits_ok e" "e \<noteq> []" "value_of e = 0"
  shows "e = [0]"
proof (cases e rule: canonical_form.cases)
  case 1
  then show ?thesis using assms by simp
next
  case (2 d)
  then show ?thesis using assms by simp
next
  case (3 d v va)
  then have "positive e" using assms by (simp add: positive_def)
  then show ?thesis using positive_value[of e] assms(4) by simp
qed

lemma last_parity:
  assumes "digits_ok e" "e \<noteq> []"
  shows "last e smod 2 \<noteq> 0 \<longleftrightarrow> odd (value_of e)"
proof -
  have e: "e = butlast e @ [last e]" using assms(2) by simp
  have "value_of e = value_of (butlast e) * 10 + last e"
    by (subst e) (simp add: value_of_append)
  moreover have "0 \<le> last e" using assms e by (metis digits_ok_Cons digits_ok_append)
  ultimately show ?thesis by (simp add: sdiv_smod_nonneg_2 odd_iff_mod_2_eq_one)
qed

lemma positive_2: "positive [2]"
  by (simp add: positive_def)

lemma mod_exponent_loop_step:
  assumes "digits_ok x" "digits_ok y" "digits_ok e" "e \<noteq> []" "e \<noteq> [0]" "positive m"
  shows "\<exists>x' y' e'. mod_exponent_loop x y e m = mod_exponent_loop x' y' e' m \<and>
     (x \<noteq> [] \<longrightarrow> x' \<noteq> []) \<and> digits_ok x' \<and> digits_ok y' \<and> digits_ok e' \<and> canonical_form e' \<and> e' \<noteq> [] \<and>
     value_of e' = value_of e div 2 \<and>
     value_of y' = value_of y * value_of y mod value_of m \<and>
     value_of x' = (if odd (value_of e) then value_of x * value_of y mod value_of m
                    else value_of x)"
proof -
  define x' where "x' = (if odd (value_of e)
      then the (op_mod (op_times x y) m) else x)"
  obtain r where r: "op_mod (op_times x y) m = Some r" "digits_ok r"
      "value_of r = value_of (op_times x y) mod value_of m" "r \<noteq> []"
    using op_mod_correct[OF op_times_correct(2)[OF assms(1,2)] assms(6)] by blast
  obtain y' where y': "op_mod (op_times y y) m = Some y'" "digits_ok y'"
      "value_of y' = value_of (op_times y y) mod value_of m"
    using op_mod_correct[OF op_times_correct(2)[OF assms(2,2)] assms(6)] by blast
  obtain e' where e': "op_div e [2] = Some e'" "digits_ok e'" "canonical_form e'" "e' \<noteq> []"
      "value_of e' = value_of e div value_of [2]"
    using op_div_correct[OF assms(3) positive_2] by blast
  have first: "(if last e smod 2 \<noteq> 0 then op_mod (op_times x y) m else Some x) = Some x'"
    using r(1) by (simp add: last_parity[OF assms(3,4)] x'_def)
  have 1: "mod_exponent_loop x y e m = mod_exponent_loop x' y' e' m"
    by (subst mod_exponent_loop.simps) (simp add: op_eq_def assms(4,5) first y'(1) e'(1))
  have 2: "digits_ok x'" using r assms(1) by (simp add: x'_def)
  have 3: "value_of x' = (if odd (value_of e) then value_of x * value_of y mod value_of m
                    else value_of x)"
    using r op_times_correct(1)[OF assms(1,2)] by (simp add: x'_def)
  have 4: "value_of y' = value_of y * value_of y mod value_of m"
    using y'(3) op_times_correct(1)[OF assms(2,2)] by simp
  have 5: "x \<noteq> [] \<longrightarrow> x' \<noteq> []" using r by (simp add: x'_def)
  have 6: "value_of e' = value_of e div 2" using e'(5) by simp
  show ?thesis using 1 2 3 4 5 6 y'(2) e'(2,3,4) by blast
qed

lemma power_step:
  fixes x y m :: int
  assumes "E div 2 \<noteq> 0"
  shows "(if odd E then x * y mod m else x) * (y * y mod m) ^ (E div 2) mod m = x * y ^ E mod m"
proof -
  have "(y * y mod m) ^ (E div 2) mod m = (y * y) ^ (E div 2) mod m" by (rule power_mod)
  also have "(y * y) ^ (E div 2) = y ^ (2 * (E div 2))" by (simp add: power_mult power2_eq_square)
  finally have sq: "(y * y mod m) ^ (E div 2) mod m = y ^ (2 * (E div 2)) mod m" .
  show ?thesis
  proof (cases "odd E")
    case True
    then have E: "E = Suc (2 * (E div 2))" by (metis odd_two_times_div_two_succ Suc_eq_plus1)
    have "(x * y mod m) * (y * y mod m) ^ (E div 2) mod m
        = (x * y) * (y ^ (2 * (E div 2))) mod m"
      by (rule mod_mult_cong) (simp_all add: sq)
    also have "\<dots> = x * y ^ E mod m" by (subst (2) E) (simp add: algebra_simps)
    finally show ?thesis using True by simp
  next
    case False
    then have E: "E = 2 * (E div 2)" by simp
    have "x * (y * y mod m) ^ (E div 2) mod m = x * y ^ (2 * (E div 2)) mod m"
      by (rule mod_mult_cong) (simp_all add: sq)
    then show ?thesis using False E by simp
  qed
qed

lemma mod_exponent_loop_canonical:
  assumes "positive m"
  shows "digits_ok x \<Longrightarrow> digits_ok y \<Longrightarrow> digits_ok e \<Longrightarrow> e \<noteq> [] \<Longrightarrow> canonical_form e \<Longrightarrow>
     \<exists>r. mod_exponent_loop x y e m = Some r \<and> digits_ok r \<and> (x \<noteq> [] \<longrightarrow> r \<noteq> []) \<and>
       value_of r = (if value_of e = 0 then value_of x
                     else value_of x * value_of y ^ nat (value_of e) mod value_of m)"
proof (induction "nat (value_of e)" arbitrary: x y e rule: less_induct)
  case less
  show ?case
  proof (cases "e = [0]")
    case True
    then have "mod_exponent_loop x y e m = Some x"
      by (subst mod_exponent_loop.simps) (simp add: op_eq_def)
    then show ?thesis using True less.prems(1) by simp
  next
    case False
    have pos: "0 < value_of e"
      using canonical_zero[OF less.prems(5,3,4)] False value_of_nonneg[OF less.prems(3)]
      by (cases "value_of e = 0") simp_all
    obtain x' y' e' where s: "mod_exponent_loop x y e m = mod_exponent_loop x' y' e' m"
      "digits_ok x'" "digits_ok y'" "digits_ok e'" "canonical_form e'" "e' \<noteq> []"
      "value_of e' = value_of e div 2"
      "value_of y' = value_of y * value_of y mod value_of m"
      "value_of x' = (if odd (value_of e) then value_of x * value_of y mod value_of m
                    else value_of x)" "x \<noteq> [] \<longrightarrow> x' \<noteq> []"
      using mod_exponent_loop_step[OF less.prems(1,2,3,4) False assms] by blast
    have "nat (value_of e') < nat (value_of e)" using s(7) pos by simp
    then obtain r where r: "mod_exponent_loop x' y' e' m = Some r" "digits_ok r"
       "value_of r = (if value_of e' = 0 then value_of x'
                     else value_of x' * value_of y' ^ nat (value_of e') mod value_of m)"
       "x' \<noteq> [] \<longrightarrow> r \<noteq> []"
      using less.hyps[OF _ s(2,3,4,6,5)] by blast
    define E where "E = nat (value_of e)"
    have E1: "value_of e = int E" "E \<noteq> 0" using pos by (simp_all add: E_def)
    have ve': "value_of e' = int (E div 2)" using s(7) E1(1) by simp
    have E2: "nat (value_of e') = E div 2" by (simp only: ve' nat_int)
    note E = E1(1) E2 E1(2)
    have e'0: "value_of e' = 0 \<longleftrightarrow> E div 2 = 0" by (simp only: ve' of_nat_eq_0_iff)
    have "value_of r = value_of x * value_of y ^ E mod value_of m"
    proof (cases "E div 2 = 0")
      case True
      then have "E = 1" using E(3) by (simp add: div_eq_0_iff) 
      then show ?thesis using r(3) e'0 True s(9) E(1) by simp
    next
      case F: False
      have "odd (value_of e) = odd E" using E(1) by simp
      then show ?thesis using r(3) e'0 F s(8,9) E(2) power_step[OF F, of "value_of x" "value_of y" "value_of m"]
        by simp
    qed
    then have "value_of r = (if value_of e = 0 then value_of x
                     else value_of x * value_of y ^ nat (value_of e) mod value_of m)"
      using E1(2) by (simp add: E1(1))
    then show ?thesis using s(1) r(1,2,4) s(10) by simp
  qed
qed

lemma mod_exponent_loop_correct:
  assumes "positive m" "digits_ok x" "digits_ok y" "digits_ok e" "e \<noteq> []"
  shows "\<exists>r. mod_exponent_loop x y e m = Some r \<and> digits_ok r \<and> (x \<noteq> [] \<longrightarrow> r \<noteq> []) \<and>
       value_of r = (if value_of e = 0 then value_of x
                     else value_of x * value_of y ^ nat (value_of e) mod value_of m)"
proof (cases "e = [0]")
  case True
  then show ?thesis using mod_exponent_loop_canonical[OF assms(1,2,3,4,5)] by simp
next
  case False
  obtain x' y' e' where s: "mod_exponent_loop x y e m = mod_exponent_loop x' y' e' m"
      "digits_ok x'" "digits_ok y'" "digits_ok e'" "canonical_form e'" "e' \<noteq> []"
      "value_of e' = value_of e div 2"
      "value_of y' = value_of y * value_of y mod value_of m"
      "value_of x' = (if odd (value_of e) then value_of x * value_of y mod value_of m
                    else value_of x)" "x \<noteq> [] \<longrightarrow> x' \<noteq> []"
    using mod_exponent_loop_step[OF assms(2,3,4,5) False assms(1)] by blast
  obtain r where r: "mod_exponent_loop x' y' e' m = Some r" "digits_ok r"
       "value_of r = (if value_of e' = 0 then value_of x'
                     else value_of x' * value_of y' ^ nat (value_of e') mod value_of m)"
       "x' \<noteq> [] \<longrightarrow> r \<noteq> []"
    using mod_exponent_loop_canonical[OF assms(1) s(2,3,4,6,5)] by blast
  define E where "E = nat (value_of e)"
  have E1: "value_of e = int E" using value_of_nonneg[OF assms(4)] by (simp add: E_def)
  have ve': "value_of e' = int (E div 2)" using s(7) E1 by simp
  have E2: "nat (value_of e') = E div 2" by (simp only: ve' nat_int)
  note E = E1 E2
  have e'0: "value_of e' = 0 \<longleftrightarrow> E div 2 = 0" by (simp only: ve' of_nat_eq_0_iff)
  have "value_of r = (if E = 0 then value_of x else value_of x * value_of y ^ E mod value_of m)"
  proof (cases "E div 2 = 0")
    case True
    then have "E = 0 \<or> E = 1" by (auto simp: div_eq_0_iff)
    then show ?thesis using r(3) e'0 True s(9) E(1) by auto
  next
    case F: False
    have "odd (value_of e) = odd E" using E(1) by simp
    moreover have "E \<noteq> 0" using F by auto
    ultimately show ?thesis using r(3) e'0 F s(8,9) E(2) power_step[OF F, of "value_of x" "value_of y" "value_of m"]
      by simp
  qed
  then have "value_of r = (if value_of e = 0 then value_of x
                     else value_of x * value_of y ^ nat (value_of e) mod value_of m)"
    by (simp add: E1)
  then show ?thesis using s(1) r(1,2,4) s(10) by simp
qed

lemma mod_exponent_correct:
  assumes "digits_ok base" "digits_ok e" "e \<noteq> []" "positive m"
  shows "\<exists>r. mod_exponent base e m = Some r \<and> digits_ok r \<and> canonical_form r \<and> r \<noteq> [] \<and>
       value_of r = (if value_of e = 0 then 1
                     else value_of base ^ nat (value_of e) mod value_of m)"
proof -
  obtain y where y: "op_mod base m = Some y" "digits_ok y" "value_of y = value_of base mod value_of m"
    using op_mod_correct[OF assms(1,4)] by blast
  have one: "digits_ok [1]" by simp
  obtain r where r: "mod_exponent_loop [1] y e m = Some r" "digits_ok r"
       "value_of r = (if value_of e = 0 then value_of [1]
                     else value_of [1] * value_of y ^ nat (value_of e) mod value_of m)"
       "[1::int] \<noteq> [] \<longrightarrow> r \<noteq> []"
    using mod_exponent_loop_correct[OF assms(4) one y(2) assms(2,3)] by blast
  have "r \<noteq> []" using r(4) by simp
  have "mod_exponent base e m = Some (remove_excess r)"
    by (simp add: mod_exponent_def y(1) r(1))
  moreover have "value_of r = (if value_of e = 0 then 1
                     else value_of base ^ nat (value_of e) mod value_of m)"
    using r(3) y(3) by (simp add: power_mod)
  ultimately show ?thesis using r(2) \<open>r \<noteq> []\<close>
    by (simp add: digits_ok_remove_excess canonical_form_remove_excess length_remove_excess)
qed

subsection \<open>Uniqueness of the canonical form\<close>

lemma decimal_bigint_positive:
  "decimal_bigint b \<Longrightarrow> value_of b \<noteq> 0 \<Longrightarrow> positive b"
  by (cases b rule: canonical_form.cases) (auto simp: decimal_bigint_def positive_def)

lemma positive_decimal_bigint: "positive b \<Longrightarrow> decimal_bigint b"
  by (cases b rule: canonical_form.cases) (auto simp: decimal_bigint_def positive_def)

lemma same_length_unique:
  "length a = length b \<Longrightarrow> digits_ok a \<Longrightarrow> digits_ok b \<Longrightarrow> value_of a = value_of b \<Longrightarrow> a = b"
proof (induction a b rule: list_induct2)
  case Nil
  then show ?case by simp
next
  case (Cons x xs y ys)
  let ?p = "(10::int) ^ length ys"
  have xs: "0 \<le> value_of xs" "value_of xs < ?p"
    using Cons.prems(1) Cons.hyps value_of_nonneg[of xs] value_of_less[of xs] by simp_all
  have ys: "0 \<le> value_of ys" "value_of ys < ?p"
    using Cons.prems(2) value_of_nonneg[of ys] value_of_less[of ys] by simp_all
  have eq: "x * ?p + value_of xs = y * ?p + value_of ys" using Cons.prems(3) Cons.hyps by simp
  have "x = y"
  proof (rule ccontr)
    assume "x \<noteq> y"
    then consider "x < y" | "y < x" by linarith
    then show False
    proof cases
      case 1
      then have "(x + 1) * ?p \<le> y * ?p" by (intro mult_right_mono) simp_all
      then show False using eq xs ys by (simp add: algebra_simps)
    next
      case 2
      then have "(y + 1) * ?p \<le> x * ?p" by (intro mult_right_mono) simp_all
      then show False using eq xs ys by (simp add: algebra_simps)
    qed
  qed
  then show ?case using Cons eq by simp
qed

lemma positive_length_unique:
  assumes "positive a" "positive b" "value_of a = value_of b"
  shows "length a = length b"
proof -
  have lt: "\<not> length x < length y" if "positive x" "positive y" "value_of x = value_of y" for x y
  proof
    assume l: "length x < length y"
    have "value_of x < 10 ^ length x" using that(1) by (intro value_of_less positive_digits_ok)
    also have "\<dots> \<le> (10::int) ^ (length y - 1)" using l by (intro power_increasing) simp_all
    also have "\<dots> \<le> value_of y" using that(2) by (rule value_of_ge)
    finally show False using that(3) by simp
  qed
  show ?thesis using lt[OF assms] lt[OF assms(2,1)] assms(3) by simp
qed

lemma decimal_bigint_unique:
  assumes "decimal_bigint a" "decimal_bigint b" "value_of a = value_of b"
  shows "a = b"
proof (cases "value_of a = 0")
  case True
  then have "a = [0]" "b = [0]"
    using assms canonical_zero[of a] canonical_zero[of b] by (simp_all add: decimal_bigint_def)
  then show ?thesis by simp
next
  case False
  then have p: "positive a" "positive b" using assms by (simp_all add: decimal_bigint_positive)
  show ?thesis using positive_length_unique[OF p assms(3)] p assms(3)
    by (intro same_length_unique positive_digits_ok)
qed

subsection \<open>Division by zero\<close>

lemma op_less_zero_divisor:
  assumes "digits_ok rem" "rem \<noteq> []"
  shows "\<not> op_less rem [0]"
proof (cases rem)
  case Nil
  then show ?thesis using assms by simp
next
  case (Cons d ds)
  then show ?thesis using assms by (cases ds) (simp_all add: op_less_def)
qed

lemma op_minus_zero_divisor:
  assumes "digits_ok rem" "rem \<noteq> []"
  shows "digits_ok (op_minus rem [0]) \<and> op_minus rem [0] \<noteq> []"
proof -
  have "value_of [0] \<le> value_of rem" using value_of_nonneg[OF assms(1)] by simp
  then show ?thesis using op_minus_correct(2)[of rem "[0]"] assms op_minus_nonempty[of rem "[0]"]
    by simp
qed

lemma div_loop_zero_divisor_no_result:
  assumes "div_loop rem other curr_div = Some y"
  shows "\<not> (other = [0] \<and> digits_ok rem \<and> rem \<noteq> [])"
proof (rule div_loop.raw_induct[where P = "\<lambda>rem other c y. \<not> (other = [0] \<and> digits_ok rem \<and> rem \<noteq> [])", OF _ assms])
  fix f :: "bignum \<Rightarrow> bignum \<Rightarrow> int \<Rightarrow> (bignum \<times> int) option" and rem other curr_div y
  assume IH: "\<And>rem other curr_div y. f rem other curr_div = Some y
      \<Longrightarrow> \<not> (other = [0] \<and> digits_ok rem \<and> rem \<noteq> [])"
    and eq: "(if \<not> op_less rem other then f (op_minus rem other) other (curr_div + 1)
              else Some (rem, curr_div)) = Some y"
  show "\<not> (other = [0] \<and> digits_ok rem \<and> rem \<noteq> [])"
  proof
    assume a: "other = [0] \<and> digits_ok rem \<and> rem \<noteq> []"
    then have "\<not> op_less rem other" by (simp add: op_less_zero_divisor)
    then have "f (op_minus rem other) other (curr_div + 1) = Some y" using eq by simp
    then have "\<not> (other = [0] \<and> digits_ok (op_minus rem other) \<and> op_minus rem other \<noteq> [])"
      by (rule IH)
    then show False using a op_minus_zero_divisor[of rem] by simp
  qed
qed

lemma div_loop_zero_divisor:
  "digits_ok rem \<Longrightarrow> rem \<noteq> [] \<Longrightarrow> div_loop rem [0] curr_div = None"
  using div_loop_zero_divisor_no_result[of rem "[0]" curr_div] by (cases "div_loop rem [0] curr_div") auto

lemma div_loop_empty: "div_loop [] [0] curr_div = Some ([], curr_div)"
  by (subst div_loop.simps) (simp add: op_less_def)

lemma div_digits_zero_divisor:
  "digits_ok a \<Longrightarrow> list_all (\<lambda>d. d = 0) quo \<Longrightarrow>
   div_digits a [0] quo [] =
     (if list_all (\<lambda>d. d = 0) a then Some (quo @ replicate (length a) 0) else None)"
proof (induction a arbitrary: quo)
  case Nil
  then show ?case by simp
next
  case (Cons d ds)
  show ?case
  proof (cases "d = 0")
    case True
    have "div_digits (d # ds) [0] quo [] = div_digits ds [0] (quo @ [0]) []"
      using True by (simp add: div_loop_empty)
    also have "\<dots> = (if list_all (\<lambda>d. d = 0) ds then Some ((quo @ [0]) @ replicate (length ds) 0) else None)"
      using Cons.prems by (intro Cons.IH) simp_all
    finally show ?thesis using True by (simp add: replicate_app_Cons_same)
  next
    case False
    then have "div_loop (erase_leading_zeros ([] @ [d])) [0] 0 = None"
      using Cons.prems(1) by (intro div_loop_zero_divisor) simp_all
    then show ?thesis using False by simp
  qed
qed

lemma remove_excess_zeros: "remove_excess (0 # replicate n 0) = [0]"
  by (induction n) simp_all

lemma digits_ok_zeros: "list_all (\<lambda>d. d = 0) a \<Longrightarrow> digits_ok a"
  by (induction a) simp_all

lemma value_of_zeros: "list_all (\<lambda>d. d = 0) a \<Longrightarrow> value_of a = 0"
  by (induction a) simp_all

lemma op_div_zero_divisor:
  assumes "digits_ok a"
  shows "op_div a [0] = (if list_all (\<lambda>d. d = 0) a then Some [0] else None)"
  using div_digits_zero_divisor[OF assms, of "[0]"]
  by (simp add: op_div_def remove_excess_zeros)

lemma op_times_zero: "op_times [0] [0] = [0]"
  by (simp add: op_times_def)

lemma op_mod_zero_divisor:
  assumes "digits_ok a"
  shows "op_mod a [0] = (if list_all (\<lambda>d. d = 0) a then Some [0] else None)"
proof (cases "list_all (\<lambda>d. d = 0) a")
  case True
  have d: "decimal_bigint (op_minus a [0])"
    using op_minus_correct(2)[OF assms, of "[0]"] value_of_zeros[OF True]
    by (simp add: decimal_bigint_def op_minus_canonical op_minus_nonempty)
  have "value_of (op_minus a [0]) = 0"
    using op_minus_correct(1)[OF assms, of "[0]"] value_of_zeros[OF True] by simp
  then have "op_minus a [0] = [0]" using d by (intro decimal_bigint_unique) (simp_all add: decimal_bigint_def)
  then show ?thesis using True by (simp add: op_mod_def op_div_zero_divisor[OF assms] op_times_zero)
next
  case False
  then show ?thesis by (simp add: op_mod_def op_div_zero_divisor[OF assms])
qed

subsection \<open>The value of a modular exponentiation\<close>

lemma mod_exponent_value:
  assumes "digits_ok base" "digits_ok exponent" "exponent \<noteq> []" "decimal_bigint modulus"
    and "2 \<le> value_of modulus \<or> 0 < value_of modulus \<and> 0 < value_of exponent"
  shows "\<exists>r. mod_exponent base exponent modulus = Some r \<and> decimal_bigint r \<and>
           value_of r = value_of base ^ nat (value_of exponent) mod value_of modulus"
proof -
  have pm: "positive modulus" using assms(4,5) by (intro decimal_bigint_positive) auto
  obtain r where r: "mod_exponent base exponent modulus = Some r" "digits_ok r" "canonical_form r" "r \<noteq> []"
     "value_of r = (if value_of exponent = 0 then 1
                     else value_of base ^ nat (value_of exponent) mod value_of modulus)"
    using mod_exponent_correct[OF assms(1,2,3) pm] by blast
  have "value_of r = value_of base ^ nat (value_of exponent) mod value_of modulus"
    using r(5) assms(5) by (cases "value_of exponent = 0") auto
  then show ?thesis using r by (simp add: decimal_bigint_def)
qed

subsection \<open>The digit of a character\<close>

lemma char_to_int_zero: "char_to_int c - char_to_int (CHR ''0'') = 0 \<longleftrightarrow> c = CHR ''0''"
proof -
  have "(of_char c :: int) = of_char (CHR ''0'') \<longleftrightarrow> c = CHR ''0''"
    by (simp only: of_char_eq_iff)
  then have "of_char c = (48::int) \<longleftrightarrow> c = CHR ''0''" by simp
  moreover have "(of_char c :: int) < 256"
    using pos_mod_bound[of 256 "of_char c :: int"] by (simp only: of_char_mod_256)
  ultimately show ?thesis by (auto simp: char_to_int_def Let_def)
qed

section \<open>The text codec\<close>

lemma of_char_zero_nat: "(of_char (CHR ''0'') :: nat) = 48"
  by simp

lemma digit_char_nat: "d < 10 \<Longrightarrow> (of_char (digit_char d) :: nat) = 48 + d"
  by (simp add: digit_char_def)

lemma digit_char_int: "d < 10 \<Longrightarrow> (of_char (digit_char d) :: int) = 48 + int d"
  using digit_char_nat[of d] of_nat_of_char[where ?'a = int, of "digit_char d"] by simp

lemma digit_char_0: "digit_char 0 = CHR ''0''"
  by (simp add: digit_char_def char_of_eq_iff)

lemma char_to_int_digit:
  "d < 10 \<Longrightarrow> char_to_int (digit_char d) - char_to_int (CHR ''0'') = int d"
  by (simp add: char_to_int_def digit_char_int)

lemma nat_to_string_digit: "n < 10 \<Longrightarrow> nat_to_string n = [digit_char n]"
  by (subst nat_to_string.simps) simp

lemma nat_to_string_two:
  "10 \<le> n \<Longrightarrow> n < 100 \<Longrightarrow> nat_to_string n = [digit_char (n div 10), digit_char (n mod 10)]"
  by (subst nat_to_string.simps) (simp add: nat_to_string_digit)

lemma nat_to_string_three:
  "100 \<le> n \<Longrightarrow> n < 1000 \<Longrightarrow>
     nat_to_string n = [digit_char (n div 100), digit_char (n div 10 mod 10), digit_char (n mod 10)]"
  by (subst nat_to_string.simps) (simp add: nat_to_string_two div_mult2_eq[symmetric])

lemma setw_fill_three_digits:
  assumes "n < 1000"
  shows "setw_fill 3 (CHR ''0'') (nat_to_string n)
       = [digit_char (n div 100), digit_char (n div 10 mod 10), digit_char (n mod 10)]"
proof -
  consider "n < 10" | "10 \<le> n" "n < 100" | "100 \<le> n" by linarith
  then show ?thesis
  proof cases
    case 1
    then show ?thesis by (simp add: setw_fill_def nat_to_string_digit digit_char_0 numeral_3_eq_3)
  next
    case 2
    then show ?thesis by (simp add: setw_fill_def nat_to_string_two digit_char_0)
  next
    case 3
    then show ?thesis using assms by (simp add: setw_fill_def nat_to_string_three)
  qed
qed

lemma of_char_less_256: "(of_char c :: nat) < 256"
  using of_char_mod_256[where ?'a = nat, of c] by (metis mod_less_divisor zero_less_numeral)

lemma encode_char:
  "setw_fill 3 (CHR ''0'') (std_to_string (of_char c))
     = [digit_char (of_char c div 100), digit_char (of_char c div 10 mod 10),
        digit_char (of_char c mod 10)]"
proof -
  have "(0::int) \<le> of_char c" by (metis of_nat_0_le_iff of_nat_of_char)
  then have "std_to_string (of_char c) = nat_to_string (of_char c)"
    by (simp add: std_to_string_def)
  moreover have "(of_char c :: nat) < 1000" using of_char_less_256[of c] by arith
  ultimately show ?thesis by (simp add: setw_fill_three_digits)
qed

lemma string_to_bignum_Nil: "string_to_bignum [] = []"
  by (simp add: string_to_bignum_def Bignum_def)

lemma string_to_bignum_Cons:
  "string_to_bignum (c # s)
     = int (of_char c div 100) # int (of_char c div 10 mod 10) # int (of_char c mod 10)
         # string_to_bignum s"
proof -
  have "(of_char c :: nat) div 100 < 10" using of_char_less_256[of c] by arith
  then show ?thesis
    unfolding string_to_bignum_def
    by (simp add: encode_char Bignum_def char_to_int_digit)
qed

lemma digits_ok_string_to_bignum: "digits_ok (string_to_bignum s)"
proof (induction s)
  case Nil
  then show ?case by (simp add: string_to_bignum_Nil)
next
  case (Cons c s)
  have "(of_char c :: nat) div 100 < 10" using of_char_less_256[of c] by arith
  moreover have "(of_char c :: nat) div 10 mod 10 < 10" "(of_char c :: nat) mod 10 < 10" by simp_all
  ultimately have "int (of_char c div 100) \<le> 9" "int (of_char c div 10 mod 10) \<le> 9"
     "int (of_char c mod 10) \<le> 9" by linarith+
  then show ?case using Cons by (simp add: string_to_bignum_Cons)
qed

lemma length_string_to_bignum: "length (string_to_bignum s) = 3 * length s"
  by (induction s) (simp_all add: string_to_bignum_Nil string_to_bignum_Cons)

lemma to_string_digits:
  "digits_ok b \<Longrightarrow> to_string b = map (\<lambda>d. digit_char (nat d)) b"
proof (induction b)
  case Nil
  then show ?case by (simp add: to_string_def)
next
  case (Cons d ds)
  then have "nat d < 10" by auto
  then have "std_to_string d = [digit_char (nat d)]"
    using Cons.prems by (simp add: std_to_string_def nat_to_string_digit)
  then show ?case using Cons by (simp add: to_string_def)
qed

lemma is_space_digit: "d < 10 \<Longrightarrow> \<not> is_space (digit_char d)"
proof -
  assume d: "d < 10"
  have "(of_char (digit_char d) :: nat) \<noteq> of_char (CHR '' '')" using d by (simp add: digit_char_nat)
  then have "digit_char d \<noteq> CHR '' ''" by auto
  then show ?thesis using d by (simp add: is_space_def digit_char_nat)
qed

lemma is_digit_digit: "d < 10 \<Longrightarrow> is_digit (digit_char d)"
  by (simp add: is_digit_def digit_char_nat)

lemma digit_not_sign: "d < 10 \<Longrightarrow> digit_char d \<noteq> CHR ''-'' \<and> digit_char d \<noteq> CHR ''+''"
proof -
  assume d: "d < 10"
  have "(of_char (digit_char d) :: nat) \<noteq> of_char (CHR ''-'')"
       "(of_char (digit_char d) :: nat) \<noteq> of_char (CHR ''+'')"
    using d by (simp_all add: digit_char_nat)
  then show ?thesis by auto
qed

lemma stoi_three_digits:
  assumes "a < 10" "b < 10" "c < 10"
  shows "stoi [digit_char a, digit_char b, digit_char c] = Inr (int (100 * a + 10 * b + c))"
  using assms
  by (simp add: stoi_def Let_def is_space_digit is_digit_digit digit_not_sign digit_char_int)

lemma decode_groups_encoding:
  "decode_groups (map (\<lambda>d. digit_char (nat d)) (string_to_bignum s)) = Inr s"
proof (induction s)
  case Nil
  then show ?case by (simp add: string_to_bignum_Nil)
next
  case (Cons c s)
  define n :: nat where "n = of_char c"
  have n: "n < 256" unfolding n_def by (rule of_char_less_256)
  then have d: "n div 100 < 10" "n div 10 mod 10 < 10" "n mod 10 < 10"
    by (simp_all add: less_mult_imp_div_less)
  have "n div 10 = 10 * (n div 10 div 10) + n div 10 mod 10" by simp
  then have "n div 10 = 10 * (n div 100) + n div 10 mod 10" by (simp add: div_mult2_eq[symmetric])
  moreover have "n = 10 * (n div 10) + n mod 10" by simp
  ultimately have v: "100 * (n div 100) + 10 * (n div 10 mod 10) + n mod 10 = n" by linarith
  have "char_of (int n) = c" unfolding n_def by (simp only: of_nat_of_char char_of_char)
  then show ?case
    using Cons stoi_three_digits[OF d]
    by (simp add: string_to_bignum_Cons n_def[symmetric] v)
qed

section \<open>The line protocol\<close>

subsection \<open>Frames\<close>

lemma length_nat_to_string: "n < 1000 \<Longrightarrow> length (nat_to_string n) \<le> 3"
proof -
  assume "n < 1000"
  then consider "n < 10" | "10 \<le> n" "n < 100" | "100 \<le> n" "n < 1000" by linarith
  then show ?thesis
    by cases (simp_all add: nat_to_string_digit nat_to_string_two nat_to_string_three)
qed

lemma length_line_number_field:
  "0 \<le> k \<Longrightarrow> k \<le> 999 \<Longrightarrow> length (line_number_field k) = 3"
  using length_nat_to_string[of "nat k"]
  by (simp add: line_number_field_def setw_fill_def std_to_string_def)

lemma padding_frame:
  assumes "0 \<le> k" "k \<le> 999" "length input \<le> 96"
  shows "padding input k = Inr (frame_of input k)"
proof -
  have l: "length (line_number_field k) = 3" using assms(1,2) by (rule length_line_number_field)
  have "size_t (102 - int (length (line_number_field k @ input))) = 99 - int (length input)"
    using assms(3) l by (simp add: size_t_def)
  moreover have "size_t (99 - int (length input) - 3) = 96 - int (length input)"
    using assms(3) by (simp add: size_t_def)
  moreover have "nat (96 - int (length input)) = 96 - length input" by simp
  ultimately show ?thesis
    using assms(3) l
    by (simp add: padding_def Let_def line_number_field_def[symmetric] frame_of_def string_max_size_def)
qed

lemma length_frame_of:
  "0 \<le> k \<Longrightarrow> k \<le> 999 \<Longrightarrow> length (frame_of line k) = 102"
  by (simp add: frame_of_def length_line_number_field)

lemma truncate_line:
  "(if length line > MAX_CHARS_PER_CHUNK then take MAX_CHARS_PER_CHUNK line else line) = take 96 line"
  by (simp add: MAX_CHARS_PER_CHUNK_def)

lemma frame_of_take: "frame_of (take 96 line) k = frame_of line k"
  by (simp add: frame_of_def)

lemma encrypt_lines_step:
  assumes "0 \<le> k" "k \<le> 999"
  shows "encrypt_lines e n (line # rest) k futures
       = encrypt_lines e n rest (k + 1) (futures @ [encrypt_task e n (frame_of line k)])"
  using padding_frame[OF assms, of "take 96 line"]
  by (simp add: truncate_line Let_def frame_of_take del: MAX_CHARS_PER_CHUNK_def)

lemma setw_fill_one: "setw_fill 3 c [x] = [c, c, x]"
proof -
  have "3 - length [x] = Suc (Suc 0)" by simp
  then show ?thesis unfolding setw_fill_def by (simp del: length_Cons list.size)
qed

lemma digit_char_1: "digit_char (Suc 0) = CHR ''1''"
  by (simp add: digit_char_def char_of_eq_iff)

lemma line_number_field_1: "line_number_field 1 = ''  1''"
proof -
  have "std_to_string 1 = [digit_char 1]"
    using nat_to_string_digit[of 1] by (simp add: std_to_string_def)
  then show ?thesis by (simp add: line_number_field_def setw_fill_one digit_char_1)
qed

lemma padding_A: "padding ''A'' 1 = Inr (''  1A'' @ replicate 95 (CHR '' '') @ ''  1'')"
  by (simp add: padding_frame frame_of_def line_number_field_1)

subsection \<open>Decoding the canonical form of an encoding\<close>

lemma Bignum_to_string: "digits_ok b \<Longrightarrow> Bignum (to_string b) = b"
proof -
  assume ok: "digits_ok b"
  have "map ((\<lambda>ch. char_to_int ch - char_to_int (CHR ''0'')) \<circ> (\<lambda>d. digit_char (nat d))) b = b"
    using ok
  proof (induction b)
    case Nil
    then show ?case by simp
  next
    case (Cons d ds)
    then have "nat d < 10" by auto
    then show ?case using Cons by (simp add: char_to_int_digit)
  qed
  then show ?thesis by (simp add: to_string_digits[OF ok] Bignum_def)
qed

lemma remove_excess_nonzero: "d \<noteq> 0 \<Longrightarrow> remove_excess (d # ds) = d # ds"
  by (cases ds) simp_all

lemma decimal_bigint_remove_excess:
  "digits_ok b \<Longrightarrow> b \<noteq> [] \<Longrightarrow> decimal_bigint (remove_excess b)"
  by (simp add: decimal_bigint_def digits_ok_remove_excess canonical_form_remove_excess
      length_remove_excess)

lemma pad_remove_excess:
  assumes "length E mod 3 = 0" "g1 \<noteq> 0 \<or> g2 \<noteq> 0 \<or> g3 \<noteq> 0"
  shows "(let to_convert = map f (remove_excess (g1 # g2 # g3 # E))
          in if length to_convert mod 3 \<noteq> 0
             then replicate (3 - length to_convert mod 3) (f 0) @ to_convert
             else to_convert) = map f (g1 # g2 # g3 # E)"
proof -
  consider "g1 \<noteq> 0" | "g1 = 0" "g2 \<noteq> 0" | "g1 = 0" "g2 = 0" "g3 \<noteq> 0" using assms(2) by blast
  then show ?thesis
  proof cases
    case 1
    have "length (g1 # g2 # g3 # E) mod 3 = 0" using assms(1) by (simp add: mod_Suc)
    then show ?thesis using 1 by (simp only: remove_excess_nonzero Let_def length_map) simp
  next
    case 2
    have r: "remove_excess (g1 # g2 # g3 # E) = g2 # g3 # E"
      using 2 by (simp add: remove_excess_nonzero)
    have "length (g2 # g3 # E) mod 3 = 2" using assms(1) by (simp add: mod_Suc)
    then have l: "length (map f (g2 # g3 # E)) mod 3 = 2" by (simp only: length_map)
    have "replicate (3 - 2) (f 0) = [f 0]" by simp
    then show ?thesis unfolding r Let_def l using 2 by simp
  next
    case 3
    have r: "remove_excess (g1 # g2 # g3 # E) = g3 # E"
      using 3 by (simp add: remove_excess_nonzero)
    have "length (g3 # E) mod 3 = 1" using assms(1) by (simp add: mod_Suc)
    then have l: "length (map f (g3 # E)) mod 3 = 1" by (simp only: length_map)
    have "replicate (3 - 1) (f 0) = [f 0, f 0]" by (simp add: numeral_2_eq_2)
    then show ?thesis unfolding r Let_def l using 3 by simp
  qed
qed

lemma decode_canonical:
  assumes "decimal_bigint r" "value_of r = value_of (string_to_bignum s)" "s \<noteq> []"
    and "(of_char (hd s) :: nat) \<noteq> 0"
  shows "bignum_to_string r = Inr s"
proof -
  obtain c s' where s: "s = c # s'" using assms(3) by (cases s) auto
  define n :: nat where "n = of_char c"
  define E where "E = string_to_bignum s'"
  have n0: "n \<noteq> 0" using assms(4) s by (simp add: n_def)
  have g: "int (n div 100) \<noteq> 0 \<or> int (n div 10 mod 10) \<noteq> 0 \<or> int (n mod 10) \<noteq> 0"
  proof (rule ccontr)
    assume "\<not> ?thesis"
    then have z: "n div 100 = 0" "n div 10 mod 10 = 0" "n mod 10 = 0" by simp_all
    have "n div 10 div 10 = 0" using z(1) by (simp add: div_mult2_eq[symmetric])
    then have "n div 10 = 0" using z(2) mult_div_mod_eq[of 10 "n div 10"] by simp
    then have "n = 0" using z(3) mult_div_mod_eq[of 10 n] by simp
    then show False using n0 by simp
  qed
  have Es: "string_to_bignum s = int (n div 100) # int (n div 10 mod 10) # int (n mod 10) # E"
    by (simp add: s string_to_bignum_Cons n_def E_def)
  have lE: "length E mod 3 = 0" by (simp add: E_def length_string_to_bignum)
  have ok: "digits_ok (string_to_bignum s)" by (rule digits_ok_string_to_bignum)
  have "decimal_bigint (remove_excess (string_to_bignum s))"
    using ok by (rule decimal_bigint_remove_excess) (simp add: Es)
  then have r: "r = remove_excess (string_to_bignum s)"
    using assms(1,2) by (intro decimal_bigint_unique) simp_all
  define f where "f = (\<lambda>d::int. digit_char (nat d))"
  have "digits_ok r" using assms(1) by (simp add: decimal_bigint_def)
  then have ts: "to_string r = map f (remove_excess (string_to_bignum s))"
    using r by (simp add: to_string_digits f_def)
  have f0: "f 0 = CHR ''0''" by (simp add: f_def digit_char_0)
  have pad: "(if length (to_string r) mod 3 \<noteq> 0
              then replicate (3 - length (to_string r) mod 3) (CHR ''0'') @ to_string r
              else to_string r) = map f (string_to_bignum s)"
    unfolding ts Es f0[symmetric] using pad_remove_excess[OF lE g, of f]
    by (simp only: Let_def)
  show ?thesis
    unfolding bignum_to_string_def Let_def pad f_def by (rule decode_groups_encoding)
qed

subsection \<open>Encrypting and decrypting one number\<close>

lemma rsa_keys_positive: "rsa_keys n e d \<Longrightarrow> positive n \<and> 2 \<le> value_of n"
proof -
  assume k: "rsa_keys n e d"
  then have "(10::int) ^ 153 \<le> value_of n" by (simp add: rsa_keys_def)
  moreover have "(2::int) \<le> 10 ^ 153" by simp
  ultimately have "2 \<le> value_of n" by linarith
  then show ?thesis using k by (simp add: rsa_keys_def decimal_bigint_positive)
qed

lemma rsa_cipher:
  assumes "rsa_keys n e d" "digits_ok m" "value_of m < value_of n"
  shows "\<exists>c. mod_exponent m e n = Some c \<and>
           (\<exists>r. mod_exponent (Bignum (to_string c)) d n = Some r \<and> decimal_bigint r \<and>
                 value_of r = value_of m)"
proof -
  have k: "decimal_bigint n" "digits_ok e" "e \<noteq> []" "digits_ok d" "d \<noteq> []"
    using assms(1) by (simp_all add: rsa_keys_def)
  have n2: "2 \<le> value_of n \<or> 0 < value_of n \<and> 0 < value_of e"
    using rsa_keys_positive[OF assms(1)] by simp
  have n2': "2 \<le> value_of n \<or> 0 < value_of n \<and> 0 < value_of d"
    using rsa_keys_positive[OF assms(1)] by simp
  obtain c where c: "mod_exponent m e n = Some c" "decimal_bigint c"
     "value_of c = value_of m ^ nat (value_of e) mod value_of n"
    using mod_exponent_value[OF assms(2) k(2,3,1) n2] by blast
  have okc: "digits_ok c" using c(2) by (simp add: decimal_bigint_def)
  obtain r where r: "mod_exponent c d n = Some r" "decimal_bigint r"
     "value_of r = value_of c ^ nat (value_of d) mod value_of n"
    using mod_exponent_value[OF okc k(4,5,1) n2'] by blast
  have M: "0 \<le> value_of m" using assms(2) by (rule value_of_nonneg)
  have "value_of r = (value_of m ^ nat (value_of e)) ^ nat (value_of d) mod value_of n"
    unfolding r(3) c(3) by (rule power_mod)
  also have "\<dots> = value_of m ^ (nat (value_of e) * nat (value_of d)) mod value_of n"
    by (simp add: power_mult)
  also have "nat (value_of e) * nat (value_of d) = nat (value_of e * value_of d)"
    using value_of_nonneg[OF k(2)] by (simp add: nat_mult_distrib)
  also have "value_of m ^ nat (value_of e * value_of d) mod value_of n = value_of m"
    using assms(1,3) M by (simp add: rsa_keys_def)
  finally have "value_of r = value_of m" .
  then show ?thesis using c(1) r(1,2) by (simp add: Bignum_to_string[OF okc])
qed

subsection \<open>The round trip of one line\<close>

lemma nat_to_string_chars: "\<forall>c \<in> set (nat_to_string n). 32 \<le> (of_char c :: nat)"
proof (induction n rule: nat_to_string.induct)
  case (1 n)
  show ?case
  proof (cases "n < 10")
    case True
    then show ?thesis by (simp add: nat_to_string_digit digit_char_nat)
  next
    case False
    have "n mod 10 < 10" by simp
    then have "32 \<le> (of_char (digit_char (n mod 10)) :: nat)" by (simp add: digit_char_nat)
    then show ?thesis using False 1 by (subst nat_to_string.simps) simp
  qed
qed

lemma line_number_field_chars:
  "0 \<le> k \<Longrightarrow> \<forall>c \<in> set (line_number_field k). 32 \<le> (of_char c :: nat)"
  using nat_to_string_chars[of "nat k"]
  by (auto simp: line_number_field_def setw_fill_def std_to_string_def)

lemma printable_chars: "printable L \<Longrightarrow> \<forall>c \<in> set L. 32 \<le> (of_char c :: nat)"
  by (simp add: printable_def list_all_iff)

lemma frame_of_chars:
  assumes "0 \<le> k" "printable L"
  shows "\<forall>c \<in> set (frame_of L k). 32 \<le> (of_char c :: nat)"
proof
  fix c assume "c \<in> set (frame_of L k)"
  then consider "c \<in> set (line_number_field k)" | "c \<in> set (take 96 L)" | "c = CHR '' ''"
    by (auto simp: frame_of_def)
  then show "32 \<le> (of_char c :: nat)"
  proof cases
    case 1
    then show ?thesis using line_number_field_chars[OF assms(1)] by blast
  next
    case 2
    then have "c \<in> set L" by (rule in_set_takeD)
    then show ?thesis using printable_chars[OF assms(2)] by blast
  next
    case 3
    then show ?thesis by simp
  qed
qed

lemma half_value:
  assumes "length h = 51"
  shows "digits_ok (string_to_bignum h) \<and> value_of (string_to_bignum h) < 10 ^ 153"
  using value_of_less[OF digits_ok_string_to_bignum, of h] assms
  by (simp add: digits_ok_string_to_bignum length_string_to_bignum)

lemma pop_back_spaces_replicate:
  "pop_back_spaces (x @ replicate j (CHR '' '')) = pop_back_spaces x"
proof (induction j)
  case 0
  then show ?case by simp
next
  case (Suc j)
  have step: "pop_back_spaces (y @ [CHR '' '']) = pop_back_spaces y" for y
    by (subst pop_back_spaces.simps) simp
  have "x @ replicate (Suc j) (CHR '' '') = (x @ replicate j (CHR '' '')) @ [CHR '' '']"
    by (simp add: replicate_append_same)
  then show ?case using step[of "x @ replicate j (CHR '' '')"] Suc by (simp only:)
qed

lemma pop_back_spaces_id: "L = [] \<or> last L \<noteq> CHR '' '' \<Longrightarrow> pop_back_spaces L = L"
  by (subst pop_back_spaces.simps) auto

lemma frame_content:
  assumes "0 \<le> k" "k \<le> 999"
  shows "take 96 (drop 3 (frame_of L k))
       = take 96 L @ replicate (96 - length (take 96 L)) (CHR '' '')"
  using length_line_number_field[OF assms] by (simp add: frame_of_def)

lemma encrypt_task_round_trip:
  assumes "rsa_keys n e d" "printable L" "0 \<le> k" "k \<le> 999"
  shows "\<exists>c1 c2. encrypt_task e n (frame_of L k) = Some (Inr (c1, c2)) \<and>
           large_decrypt d n c1 c2 = Some (Inr (pop_back_spaces (take 96 L)))"
proof -
  define F where "F = frame_of L k"
  define h1 where "h1 = take 51 F"
  define h2 where "h2 = drop 51 F"
  have lF: "length F = 102" unfolding F_def using assms(3,4) by (rule length_frame_of)
  have l: "length h1 = 51" "length h2 = 51" using lF by (simp_all add: h1_def h2_def)
  have ne: "h1 \<noteq> []" "h2 \<noteq> []" using l by auto
  have ch: "\<forall>c \<in> set F. 32 \<le> (of_char c :: nat)"
    unfolding F_def using assms(3,2) by (rule frame_of_chars)
  have "hd h1 \<in> set F" using ne(1) hd_in_set[OF ne(1)] in_set_takeD[of "hd h1" 51 F]
    by (simp add: h1_def)
  then have z1: "(of_char (hd h1) :: nat) \<noteq> 0" using ch by fastforce
  have "hd h2 \<in> set F" using ne(2) hd_in_set[OF ne(2)] in_set_dropD[of "hd h2" 51 F]
    by (simp add: h2_def)
  then have z2: "(of_char (hd h2) :: nat) \<noteq> 0" using ch by fastforce
  have N: "10 ^ 153 \<le> value_of n" using assms(1) by (simp add: rsa_keys_def)
  have m1: "digits_ok (string_to_bignum h1)" "value_of (string_to_bignum h1) < value_of n"
    using half_value[OF l(1)] N by simp_all
  have m2: "digits_ok (string_to_bignum h2)" "value_of (string_to_bignum h2) < value_of n"
    using half_value[OF l(2)] N by simp_all
  obtain c1 r1 where c1: "mod_exponent (string_to_bignum h1) e n = Some c1"
      "mod_exponent (Bignum (to_string c1)) d n = Some r1" "decimal_bigint r1"
      "value_of r1 = value_of (string_to_bignum h1)"
    using rsa_cipher[OF assms(1) m1] by blast
  obtain c2 r2 where c2: "mod_exponent (string_to_bignum h2) e n = Some c2"
      "mod_exponent (Bignum (to_string c2)) d n = Some r2" "decimal_bigint r2"
      "value_of r2 = value_of (string_to_bignum h2)"
    using rsa_cipher[OF assms(1) m2] by blast
  have s: "substr F 0 51 = Inr h1" "substr_from F 51 = Inr h2"
    using lF by (simp_all add: substr_def substr_from_def h1_def h2_def)
  have task: "encrypt_task e n F = Some (Inr (to_string c1, to_string c2))"
    by (simp add: encrypt_task_def s c1(1) c2(1))
  have d1: "bignum_to_string r1 = Inr h1" using c1(3,4) ne(1) z1 by (rule decode_canonical)
  have d2: "bignum_to_string r2 = Inr h2" using c2(3,4) ne(2) z2 by (rule decode_canonical)
  have F: "h1 @ h2 = F" by (simp add: h1_def h2_def)
  have sz: "nat (size_t (int (length F) - 6)) = 96" using lF by (simp add: size_t_def)
  have sub: "substr F 3 96 = Inr (take 96 L @ replicate (96 - length (take 96 L)) (CHR '' ''))"
    using lF frame_content[OF assms(3,4), of L] by (simp add: substr_def F_def)
  have "large_decrypt d n (to_string c1) (to_string c2)
      = Some (Inr (pop_back_spaces (take 96 L)))"
    by (simp add: large_decrypt_def c1(2) c2(2) d1 d2 F Let_def sz sub pop_back_spaces_replicate
        del: replicate_eq_replicate)
  then show ?thesis using task by (simp add: F_def)
qed

subsection \<open>The round trip of a text\<close>

lemma getlines_from_line:
  "CHR 0x0A \<notin> set l \<Longrightarrow>
     getlines_from (l @ CHR 0x0A # rest) line = (line @ l) # getlines_from rest []"
  by (induction l arbitrary: line) auto

lemma getlines_to_encrypt:
  "\<forall>l \<in> set ls. CHR 0x0A \<notin> set l \<Longrightarrow> getlines (to_encrypt ls) = ls"
proof -
  assume a: "\<forall>l \<in> set ls. CHR 0x0A \<notin> set l"
  have "getlines_from (to_encrypt ls) [] = ls" using a
  proof (induction ls)
    case Nil
    then show ?case by (simp add: to_encrypt_def)
  next
    case (Cons l ls)
    have "to_encrypt (l # ls) = l @ CHR 0x0A # to_encrypt ls" by (simp add: to_encrypt_def)
    then show ?case using Cons by (simp add: getlines_from_line)
  qed
  then show ?thesis by (simp add: getlines_def)
qed

lemma printable_no_line_feed: "printable l \<Longrightarrow> CHR 0x0A \<notin> set l"
proof
  assume "printable l" "CHR 0x0A \<in> set l"
  then have "32 \<le> (of_char (CHR 0x0A) :: nat)" using printable_chars by blast
  then show False by simp
qed

lemma encrypt_lines_frames:
  "0 \<le> k \<Longrightarrow> k + int (length ls) \<le> 1000 \<Longrightarrow>
     encrypt_lines e n ls k futures = (futures @ map (encrypt_task e n) (frames ls k), None)"
proof (induction ls arbitrary: k futures)
  case Nil
  then show ?case by simp
next
  case (Cons l ls)
  have k: "0 \<le> k" "k \<le> 999" using Cons.prems by simp_all
  have "encrypt_lines e n (l # ls) k futures
      = encrypt_lines e n ls (k + 1) (futures @ [encrypt_task e n (frame_of l k)])"
    using k by (rule encrypt_lines_step)
  also have "\<dots> = ((futures @ [encrypt_task e n (frame_of l k)])
      @ map (encrypt_task e n) (frames ls (k + 1)), None)"
    using Cons.prems by (intro Cons.IH) simp_all
  finally show ?case by simp
qed

lemma collect_round_trip:
  assumes "rsa_keys n e d"
  shows "\<forall>L \<in> set ls. printable L \<and> length L \<le> 96 \<Longrightarrow> 0 \<le> k \<Longrightarrow> k + int (length ls) \<le> 1000 \<Longrightarrow>
     \<exists>pairs. collect (map (encrypt_task e n) (frames ls k)) = Some (Inr pairs) \<and>
        decrypt_lines d n pairs = map (\<lambda>L. Some (Inr (pop_back_spaces L))) ls"
proof (induction ls arbitrary: k)
  case Nil
  then show ?case by (simp add: decrypt_lines_def)
next
  case (Cons L ls)
  have k: "0 \<le> k" "k \<le> 999" using Cons.prems by simp_all
  have L: "printable L" "length L \<le> 96" using Cons.prems(1) by simp_all
  obtain c1 c2 where c: "encrypt_task e n (frame_of L k) = Some (Inr (c1, c2))"
      "large_decrypt d n c1 c2 = Some (Inr (pop_back_spaces (take 96 L)))"
    using encrypt_task_round_trip[OF assms L(1) k] by blast
  obtain pairs where p: "collect (map (encrypt_task e n) (frames ls (k + 1))) = Some (Inr pairs)"
      "decrypt_lines d n pairs = map (\<lambda>L. Some (Inr (pop_back_spaces L))) ls"
    using Cons.IH[of "k + 1"] Cons.prems by auto
  have "collect (map (encrypt_task e n) (frames (L # ls) k)) = Some (Inr ((c1, c2) # pairs))"
    by (simp add: c(1) p(1))
  moreover have "decrypt_lines d n ((c1, c2) # pairs)
      = map (\<lambda>L. Some (Inr (pop_back_spaces L))) (L # ls)"
    using p(2) c(2) L(2) by (simp add: decrypt_lines_def)
  ultimately show ?case by blast
qed

lemma round_trip_lines:
  assumes "rsa_keys n e d" "length ls \<le> 999" "\<forall>L \<in> set ls. printable L \<and> length L \<le> 96"
  shows "round_trip n e d (to_encrypt ls) = Some (map (\<lambda>L. Some (Inr (pop_back_spaces L))) ls)"
proof -
  have g: "getlines (to_encrypt ls) = ls"
    using assms(3) by (intro getlines_to_encrypt) (simp add: printable_no_line_feed)
  have el: "encrypt_lines e n ls 1 [] = ([] @ map (encrypt_task e n) (frames ls 1), None)"
    using assms(2) by (intro encrypt_lines_frames) simp_all
  obtain pairs where p: "collect (map (encrypt_task e n) (frames ls 1)) = Some (Inr pairs)"
      "decrypt_lines d n pairs = map (\<lambda>L. Some (Inr (pop_back_spaces L))) ls"
    using collect_round_trip[OF assms(1,3), of 1] assms(2) by auto
  have "large_encrypt e n (to_encrypt ls) = Some (Inr pairs)"
    by (simp add: large_encrypt_def g el p(1))
  then show ?thesis by (simp add: round_trip_def p(2))
qed

subsection \<open>A key and some lines to try\<close>

lemma canonical_form_nonzero_head: "d \<noteq> 0 \<Longrightarrow> canonical_form (d # ds)"
  by (cases ds) simp_all

lemma rsa_keys_trivial: "rsa_keys (1 # replicate 153 0) [1] [1]"
proof -
  have "decimal_bigint (1 # replicate 153 0)"
    by (simp add: decimal_bigint_def canonical_form_nonzero_head)
  moreover have "value_of (1 # replicate 153 0) = 10 ^ 153" by simp
  ultimately show ?thesis by (simp add: rsa_keys_def)
qed

lemma printable_space: "printable '' ''"
  by (simp add: printable_def)

lemma pop_back_spaces_space: "pop_back_spaces '' '' = ''''"
  using pop_back_spaces_replicate[of "[]" 1] by (simp add: pop_back_spaces_id)

lemma encrypt_task_halves:
  assumes "51 \<le> length F"
  shows "encrypt_task e n F =
     (case mod_exponent (string_to_bignum (take 51 F)) e n of
        None \<Rightarrow> None
      | Some first_encrypted \<Rightarrow>
          (case mod_exponent (string_to_bignum (drop 51 F)) e n of
             None \<Rightarrow> None
           | Some second_encrypted \<Rightarrow>
               Some (Inr (to_string first_encrypted, to_string second_encrypted))))"
  using assms by (simp add: encrypt_task_def substr_def substr_from_def split: option.split)

lemma digit_char_7: "digit_char 7 = CHR ''7''"
  by (simp add: digit_char_def char_of_eq_iff)

lemma line_number_field_7: "line_number_field 7 = ''  7''"
proof -
  have "std_to_string 7 = [digit_char 7]"
    using nat_to_string_digit[of 7] by (simp add: std_to_string_def)
  then show ?thesis by (simp add: line_number_field_def setw_fill_one digit_char_7)
qed

subsection \<open>Line 1000\<close>

lemma length_std_to_string_1000: "length (std_to_string 1000) = 4"
proof -
  have "nat_to_string 1000 = nat_to_string 100 @ [digit_char 0]"
    by (subst nat_to_string.simps) simp
  moreover have "nat_to_string 100 = [digit_char 1, digit_char 0, digit_char 0]"
    using nat_to_string_three[of 100] by simp
  ultimately show ?thesis by (simp add: std_to_string_def)
qed

lemma padding_1000:
  assumes "length input = 96"
  shows "padding input 1000 = Inl LengthError"
proof -
  have l: "length (setw_fill 3 (CHR '' '') (std_to_string 1000) @ input) = 100"
    using assms length_std_to_string_1000 by (simp add: setw_fill_def)
  have "size_t (102 - 100) = 2" by (simp add: size_t_def)
  moreover have "size_t (2 - 3) = 2 ^ 64 - 1" by (simp add: size_t_def)
  ultimately show ?thesis
    unfolding padding_def Let_def l by (simp add: string_max_size_def)
qed

lemma encrypt_lines_line_1000:
  assumes "96 \<le> length l"
  shows "0 \<le> k \<Longrightarrow> k + int j = 1000 \<Longrightarrow>
     encrypt_lines e n (replicate j [] @ [l]) k futures
       = (futures @ map (encrypt_task e n) (frames (replicate j []) k), Some LengthError)"
proof (induction j arbitrary: k futures)
  case 0
  have "padding (take 96 l) 1000 = Inl LengthError" using assms by (intro padding_1000) simp
  then show ?case using 0 by (simp add: truncate_line del: MAX_CHARS_PER_CHUNK_def)
next
  case (Suc j)
  have k: "0 \<le> k" "k \<le> 999" using Suc.prems by simp_all
  have "encrypt_lines e n (replicate (Suc j) [] @ [l]) k futures
      = encrypt_lines e n (replicate j [] @ [l]) (k + 1)
          (futures @ [encrypt_task e n (frame_of [] k)])"
    using encrypt_lines_step[OF k, of e n "[]" "replicate j [] @ [l]" futures] by simp
  also have "\<dots> = ((futures @ [encrypt_task e n (frame_of [] k)])
       @ map (encrypt_task e n) (frames (replicate j []) (k + 1)), Some LengthError)"
    using Suc.prems by (intro Suc.IH) simp_all
  finally show ?case by simp
qed

lemma line_1000_any_key:
  assumes "96 \<le> length l" "CHR 0x0A \<notin> set l"
  shows "large_encrypt e n (to_encrypt (replicate 999 [] @ [l])) = None \<or>
         large_encrypt e n (to_encrypt (replicate 999 [] @ [l])) = Some (Inl LengthError)"
proof -
  have g: "getlines (to_encrypt (replicate 999 [] @ [l])) = replicate 999 [] @ [l]"
    using assms(2) by (intro getlines_to_encrypt) auto
  have el: "encrypt_lines e n (replicate 999 [] @ [l]) 1 []
       = ([] @ map (encrypt_task e n) (frames (replicate 999 []) 1), Some LengthError)"
    using assms(1) by (rule encrypt_lines_line_1000) simp_all
  show ?thesis unfolding large_encrypt_def g el by (simp split: option.split)
qed

lemma line_1000_rsa_keys:
  assumes "rsa_keys n e d" "96 \<le> length l" "CHR 0x0A \<notin> set l"
  shows "large_encrypt e n (to_encrypt (replicate 999 [] @ [l])) = Some (Inl LengthError)"
proof -
  have g: "getlines (to_encrypt (replicate 999 [] @ [l])) = replicate 999 [] @ [l]"
    using assms(3) by (intro getlines_to_encrypt) auto
  have el: "encrypt_lines e n (replicate 999 [] @ [l]) 1 []
       = ([] @ map (encrypt_task e n) (frames (replicate 999 []) 1), Some LengthError)"
    using assms(2) by (rule encrypt_lines_line_1000) simp_all
  obtain pairs where "collect (map (encrypt_task e n) (frames (replicate 999 []) 1)) = Some (Inr pairs)"
    using collect_round_trip[OF assms(1), of "replicate 999 []" 1] by (auto simp: printable_def)
  then show ?thesis unfolding large_encrypt_def g el by simp
qed

subsection \<open>One pair a line, in the order of the lines\<close>

lemma frames_nth:
  "i < length ls \<Longrightarrow> frames ls k ! i = frame_of (ls ! i) (k + int i)"
proof (induction ls arbitrary: k i)
  case Nil
  then show ?case by simp
next
  case (Cons l ls)
  show ?case
  proof (cases i)
    case 0
    then show ?thesis by simp
  next
    case (Suc i')
    then show ?thesis using Cons.IH[of i' "k + 1"] Cons.prems by (simp add: add.assoc)
  qed
qed

lemma length_frames: "length (frames ls k) = length ls"
  by (induction ls arbitrary: k) simp_all

lemma encrypt_task_returns:
  assumes "positive n" "digits_ok e" "e \<noteq> []" "51 \<le> length F"
  shows "\<exists>c1 c2. encrypt_task e n F = Some (Inr (c1, c2))"
proof -
  obtain r1 where r1: "mod_exponent (string_to_bignum (take 51 F)) e n = Some r1"
    using mod_exponent_correct[OF digits_ok_string_to_bignum assms(2,3,1)] by blast
  obtain r2 where r2: "mod_exponent (string_to_bignum (drop 51 F)) e n = Some r2"
    using mod_exponent_correct[OF digits_ok_string_to_bignum assms(2,3,1)] by blast
  show ?thesis by (simp add: encrypt_task_halves[OF assms(4)] r1 r2)
qed

lemma collect_all_return:
  "\<forall>f \<in> set fs. \<exists>v. f = Some (Inr v) \<Longrightarrow>
     \<exists>vs. collect fs = Some (Inr vs) \<and> length vs = length fs \<and>
           (\<forall>i < length fs. fs ! i = Some (Inr (vs ! i)))"
proof (induction fs)
  case Nil
  then show ?case by simp
next
  case (Cons f fs)
  obtain v where v: "f = Some (Inr v)" using Cons.prems by auto
  obtain vs where vs: "collect fs = Some (Inr vs)" "length vs = length fs"
      "\<forall>i < length fs. fs ! i = Some (Inr (vs ! i))"
    using Cons by auto
  have "collect (f # fs) = Some (Inr (v # vs))" by (simp add: v vs(1))
  moreover have "\<forall>i < length (f # fs). (f # fs) ! i = Some (Inr ((v # vs) ! i))"
    using v vs(3) by (auto simp: nth_Cons split: nat.split)
  ultimately show ?case using vs(2) by auto
qed

lemma large_encrypt_in_order:
  assumes "positive public_mod" "digits_ok public_exp" "public_exp \<noteq> []"
    and "length lines \<le> 999" "\<forall>l \<in> set lines. CHR 0x0A \<notin> set l"
  shows "\<exists>pairs. large_encrypt public_exp public_mod (to_encrypt lines) = Some (Inr pairs) \<and>
           length pairs = length lines \<and>
           (\<forall>i < length lines.
              encrypt_task public_exp public_mod (frame_of (lines ! i) (1 + int i))
                = Some (Inr (pairs ! i)))"
proof -
  let ?fs = "map (encrypt_task public_exp public_mod) (frames lines 1)"
  have g: "getlines (to_encrypt lines) = lines" using assms(5) by (rule getlines_to_encrypt)
  have el: "encrypt_lines public_exp public_mod lines 1 [] = ([] @ ?fs, None)"
    using assms(4) by (intro encrypt_lines_frames) simp_all
  have "\<forall>f \<in> set ?fs. \<exists>v. f = Some (Inr v)"
  proof
    fix f assume "f \<in> set ?fs"
    then obtain i where i: "i < length lines" "f = encrypt_task public_exp public_mod (frames lines 1 ! i)"
      by (auto simp: in_set_conv_nth length_frames)
    have "length (frame_of (lines ! i) (1 + int i)) = 102"
      using i(1) assms(4) by (intro length_frame_of) simp_all
    then show "\<exists>v. f = Some (Inr v)"
      using encrypt_task_returns[OF assms(1,2,3), of "frame_of (lines ! i) (1 + int i)"] i
      by (simp add: frames_nth)
  qed
  then obtain vs where vs: "collect ?fs = Some (Inr vs)" "length vs = length ?fs"
      "\<forall>i < length ?fs. ?fs ! i = Some (Inr (vs ! i))"
    using collect_all_return[of ?fs] by blast
  have "large_encrypt public_exp public_mod (to_encrypt lines) = Some (Inr vs)"
    by (simp add: large_encrypt_def g el vs(1))
  moreover have "\<forall>i < length lines.
              encrypt_task public_exp public_mod (frame_of (lines ! i) (1 + int i))
                = Some (Inr (vs ! i))"
    using vs(3) by (simp add: length_frames frames_nth)
  ultimately show ?thesis using vs(2) by (simp add: length_frames)
qed

section \<open>The claims on the arithmetic\<close>

text \<open>
  C6. For digit vectors \<open>a\<close> and \<open>b\<close> with \<open>a \<ge> b\<close> as numbers (leading zeros
  allowed, \<open>a\<close> not empty), \<^verbatim>\<open>a - b\<close> is the DecimalBigInt whose value is exactly the value
  of \<open>a\<close> minus the value of \<open>b\<close>: \<open>op_minus\<close> is the digit-wise loop with borrow from
  the least significant digit upwards, followed by \<open>remove_excess\<close>.
\<close>

theorem subtract_value:
  assumes "digits_ok a" "digits_ok b" "a \<noteq> []" "value_of b \<le> value_of a"
  shows "decimal_bigint (op_minus a b) \<and> value_of (op_minus a b) = value_of a - value_of b"
  using op_minus_correct[OF assms(1,2,4)] assms(3)
  by (simp add: decimal_bigint_def op_minus_canonical op_minus_nonempty)

theorem subtract_value_witness:
  "digits_ok [1, 0, 0, 3] \<and> digits_ok [0, 9, 7] \<and> [1, 0, 0, 3] \<noteq> ([] :: bignum) \<and>
   value_of [0, 9, 7] \<le> value_of [1, 0, 0, 3] \<and>
   decimal_bigint (op_minus [1, 0, 0, 3] [0, 9, 7]) \<and>
   value_of (op_minus [1, 0, 0, 3] [0, 9, 7]) = value_of [1, 0, 0, 3] - value_of [0, 9, 7] \<and>
   op_minus [1, 0, 0, 3] [0, 9, 7] = [9, 0, 6]"
proof -
  have h: "digits_ok [1, 0, 0, 3]" "digits_ok [0, 9, 7]" "[1, 0, 0, 3] \<noteq> ([] :: bignum)"
    "value_of [0, 9, 7] \<le> value_of [1, 0, 0, 3]" by simp_all
  have e: "op_minus [1, 0, 0, 3] [0, 9, 7] = [9, 0, 6]" by (simp add: op_minus_def)
  show ?thesis using h subtract_value[OF h] e by simp
qed

text \<open>
  C3. For a vector of digits \<open>a\<close> and a DecimalBigInt \<open>b\<close> other than zero, \<^verbatim>\<open>a / b\<close> and
  \<^verbatim>\<open>a % b\<close> return, and return the Euclidean quotient and remainder as DecimalBigInts:
  \<open>a = (a / b) * b + a % b\<close> with \<open>0 \<le> a % b < b\<close>. In particular \<^verbatim>\<open>b / b\<close> is \<open>1\<close> and
  \<^verbatim>\<open>b % b\<close> is \<open>0\<close>.
\<close>

theorem divide_modulo_euclidean:
  assumes "digits_ok a" "decimal_bigint b" "value_of b \<noteq> 0"
  shows "(\<exists>q r. op_div a b = Some q \<and> op_mod a b = Some r \<and>
           decimal_bigint q \<and> decimal_bigint r \<and>
           value_of a = value_of q * value_of b + value_of r \<and>
           0 \<le> value_of r \<and> value_of r < value_of b \<and>
           value_of q = value_of a div value_of b \<and> value_of r = value_of a mod value_of b) \<and>
         op_div b b = Some [1] \<and> op_mod b b = Some [0]"
proof -
  have pb: "positive b" using assms(2,3) by (rule decimal_bigint_positive)
  have B: "0 < value_of b" using pb by (rule positive_value)
  have all: "\<exists>q r. op_div x b = Some q \<and> op_mod x b = Some r \<and>
           decimal_bigint q \<and> decimal_bigint r \<and>
           value_of q = value_of x div value_of b \<and> value_of r = value_of x mod value_of b"
    if "digits_ok x" for x
    using op_div_correct[OF that pb] op_mod_correct[OF that pb]
    by (auto simp: decimal_bigint_def)
  from all[OF assms(1)] B have 1: "\<exists>q r. op_div a b = Some q \<and> op_mod a b = Some r \<and>
           decimal_bigint q \<and> decimal_bigint r \<and>
           value_of a = value_of q * value_of b + value_of r \<and>
           0 \<le> value_of r \<and> value_of r < value_of b \<and>
           value_of q = value_of a div value_of b \<and> value_of r = value_of a mod value_of b"
    by auto
  obtain q r where qr: "op_div b b = Some q" "op_mod b b = Some r" "decimal_bigint q"
     "decimal_bigint r" "value_of q = value_of b div value_of b" "value_of r = value_of b mod value_of b"
    using all[OF positive_digits_ok[OF pb]] by blast
  have "q = [1]" using qr(3,5) B by (intro decimal_bigint_unique) (simp_all add: decimal_bigint_def)
  moreover have "r = [0]" using qr(4,6) by (intro decimal_bigint_unique) (simp_all add: decimal_bigint_def)
  ultimately have "op_div b b = Some [1] \<and> op_mod b b = Some [0]" using qr(1,2) by simp
  with 1 show ?thesis by simp
qed

theorem divide_modulo_euclidean_witness:
  "digits_ok [0, 1, 7] \<and> decimal_bigint [5] \<and> value_of [5] \<noteq> 0 \<and>
   (\<exists>q r. op_div [0, 1, 7] [5] = Some q \<and> op_mod [0, 1, 7] [5] = Some r \<and>
           decimal_bigint q \<and> decimal_bigint r \<and>
           value_of [0, 1, 7] = value_of q * value_of [5] + value_of r \<and>
           0 \<le> value_of r \<and> value_of r < value_of [5] \<and>
           value_of q = value_of [0, 1, 7] div value_of [5] \<and>
           value_of r = value_of [0, 1, 7] mod value_of [5]) \<and>
   op_div [5] [5] = Some [1] \<and> op_mod [5] [5] = Some [0] \<and>
   op_div [0, 1, 7] [5] = Some [3] \<and> op_mod [0, 1, 7] [5] = Some [2]"
proof -
  have h: "digits_ok [0, 1, 7]" "decimal_bigint [5]" "value_of [5] \<noteq> 0"
    by (simp_all add: decimal_bigint_def)
  have e: "op_div [0, 1, 7] [5] = Some [3]" "op_mod [0, 1, 7] [5] = Some [2]"
    by (simp_all add: op_mod_def op_div_def div_loop.simps op_less_def op_minus_def op_times_def)
  show ?thesis using h divide_modulo_euclidean[OF h] e by simp
qed

text \<open>
  C4. The claim asks for a DivisionByZero error when the divisor is zero. The code has
  no such error: at the divisor \<open>0\<close> the division of \<open>0\<close> returns \<open>0\<close>, and the division
  of \<open>7\<close> never leaves its subtraction loop.
\<close>

theorem zero_divisor_counterexample:
  "op_div [0] [0] = Some [0] \<and> op_mod [0] [0] = Some [0] \<and> op_div [7] [0] = None \<and> op_mod [7] [0] = None"
  by (simp add: op_div_zero_divisor op_mod_zero_divisor)

text \<open>
  C4, as the code has it. With the divisor \<open>0\<close> and a vector of digits \<open>a\<close>, \<^verbatim>\<open>a / 0\<close> and
  \<^verbatim>\<open>a % 0\<close> return \<open>0\<close> when every digit of \<open>a\<close> is zero; otherwise the subtraction loop
  never ends and there is no result. No error is raised in either case.
\<close>

theorem zero_divisor_behaviour:
  assumes "digits_ok a"
  shows "op_div a [0] = (if list_all (\<lambda>d. d = 0) a then Some [0] else None) \<and>
         op_mod a [0] = (if list_all (\<lambda>d. d = 0) a then Some [0] else None)"
  using op_div_zero_divisor[OF assms] op_mod_zero_divisor[OF assms] by simp

theorem zero_divisor_behaviour_witness:
  "digits_ok [0, 3] \<and> op_div [0, 3] [0] = None \<and> op_mod [0, 3] [0] = None \<and>
   digits_ok [0, 0] \<and> op_div [0, 0] [0] = Some [0] \<and> op_mod [0, 0] [0] = Some [0]"
proof -
  have h: "digits_ok [0, 3]" "digits_ok [0, 0]" by simp_all
  show ?thesis using h zero_divisor_behaviour[OF h(1)] zero_divisor_behaviour[OF h(2)] by simp
qed

text \<open>
  C9. For vectors of digits as base and as exponent (the exponent not empty) and a
  DecimalBigInt other than zero as modulus, \<open>mod_exponent\<close> returns: its loop ends. The step that
  drives it, \<^verbatim>\<open>curr_exponent / two\<close>, returns the half of the exponent rounded down, which
  is smaller than the exponent unless the exponent is zero already.
\<close>

theorem mod_exponent_terminates:
  assumes "digits_ok base" "digits_ok exponent" "exponent \<noteq> []"
    and "decimal_bigint modulus" "value_of modulus \<noteq> 0"
  shows "(\<exists>r. mod_exponent base exponent modulus = Some r) \<and>
         (\<exists>e'. op_div exponent (Bignum ''2'') = Some e' \<and> decimal_bigint e' \<and>
                value_of e' = value_of exponent div 2 \<and>
                (if value_of exponent = 0 then value_of e' = 0
                 else value_of e' < value_of exponent))"
proof -
  have pm: "positive modulus" using assms(4,5) by (rule decimal_bigint_positive)
  have e: "digits_ok exponent" "exponent \<noteq> []" using assms(2,3) by simp_all
  have "\<exists>r. mod_exponent base exponent modulus = Some r"
    using mod_exponent_correct[OF assms(1) e pm] by blast
  moreover obtain e' where e': "op_div exponent [2] = Some e'" "digits_ok e'" "canonical_form e'"
     "e' \<noteq> []" "value_of e' = value_of exponent div value_of [2]"
    using op_div_correct[OF e(1) positive_2] by blast
  moreover have "0 \<le> value_of exponent" using e(1) by (rule value_of_nonneg)
  ultimately show ?thesis by (auto simp: decimal_bigint_def)
qed

theorem mod_exponent_terminates_witness:
  "digits_ok [4] \<and> digits_ok [1, 3] \<and> [1, 3] \<noteq> ([] :: bignum) \<and>
   decimal_bigint [4, 9, 7] \<and> value_of [4, 9, 7] \<noteq> 0 \<and>
   (\<exists>r. mod_exponent [4] [1, 3] [4, 9, 7] = Some r) \<and>
   (\<exists>e'. op_div [1, 3] (Bignum ''2'') = Some e' \<and> decimal_bigint e' \<and>
          value_of e' = value_of [1, 3] div 2 \<and>
          (if value_of [1, 3] = 0 then value_of e' = 0 else value_of e' < value_of [1, 3]))"
proof -
  have h: "digits_ok [4]" "digits_ok [1, 3]" "[1, 3] \<noteq> ([] :: bignum)"
    "decimal_bigint [4, 9, 7]" "value_of [4, 9, 7] \<noteq> 0"
    by (simp_all add: decimal_bigint_def)
  show ?thesis using h mod_exponent_terminates[OF h] by simp
qed

text \<open>
  C2. For the base \<open>5\<close>, the exponent \<open>0\<close> and the modulus \<open>1\<close> the function returns
  \<open>1\<close>: the accumulator starts at \<open>1\<close>, the loop body never runs, and nothing reduces
  it modulo \<open>1\<close>. The power \<open>5 ^ 0\<close> reduced modulo \<open>1\<close> is \<open>0\<close>.
\<close>

theorem mod_exponent_modulus_one:
  "mod_exponent [5] [0] [1] = Some [1] \<and> value_of [1] \<noteq> value_of [5] ^ nat (value_of [0]) mod value_of [1]"
  by (simp add: mod_exponent_def mod_exponent_loop.simps op_eq_def op_mod_def op_div_def
      div_loop.simps op_less_def op_minus_def op_times_def)

text \<open>
  C5. The constructor copies the digits of its string and trims nothing: \<^verbatim>\<open>Bignum("007")\<close>
  keeps two leading zeros, and so does every encoding of a text that starts with a
  character below 100, such as \<^verbatim>\<open>"A"\<close>.
\<close>

theorem canonical_form_counterexample:
  "Bignum ''007'' = [0, 0, 7] \<and> \<not> canonical_form (Bignum ''007'') \<and>
   \<not> canonical_form (string_to_bignum ''A'')"
  by (simp add: Bignum_def char_to_int_def string_to_bignum_def setw_fill_def std_to_string_def
      nat_to_string.simps digit_char_def)

text \<open>
  C5, as the code has it. Whatever \<open>remove_excess\<close>, subtraction, multiplication,
  division, remainder and modular exponentiation return is in canonical form. A value
  built from a string has the digits of the string: it is in canonical form exactly when
  the string has at most one character or does not start with \<^verbatim>\<open>'0'\<close>.
\<close>

theorem canonical_form_results:
  "canonical_form (remove_excess a) \<and> canonical_form (op_minus a b) \<and>
   canonical_form (op_times a b) \<and>
   (\<forall>q. op_div a b = Some q \<longrightarrow> canonical_form q) \<and>
   (\<forall>r. op_mod a b = Some r \<longrightarrow> canonical_form r) \<and>
   (\<forall>r. mod_exponent a b m = Some r \<longrightarrow> canonical_form r) \<and>
   (canonical_form (Bignum s) \<longleftrightarrow> length s \<le> 1 \<or> hd s \<noteq> CHR ''0'')"
proof -
  have "canonical_form (Bignum s) \<longleftrightarrow> length s \<le> 1 \<or> hd s \<noteq> CHR ''0''"
  proof (cases s)
    case Nil
    then show ?thesis by (simp add: Bignum_def)
  next
    case (Cons c cs)
    then show ?thesis using char_to_int_zero[of c] by (cases cs) (simp_all add: Bignum_def)
  qed
  moreover have "\<forall>r. mod_exponent a b m = Some r \<longrightarrow> canonical_form r"
    by (auto simp: mod_exponent_def canonical_form_remove_excess split: bind_splits)
  ultimately show ?thesis
    by (auto simp: canonical_form_remove_excess op_minus_canonical op_times_canonical op_div_def op_mod_def)
qed

theorem canonical_form_results_witness:
  "op_div [1, 7] [5] = Some [3] \<and> op_mod [1, 7] [5] = Some [2] \<and>
   mod_exponent [1, 7] [5] [7] = Some [5] \<and>
   canonical_form (remove_excess [0, 1, 7]) \<and> canonical_form (op_minus [1, 7] [5]) \<and>
   canonical_form (op_times [1, 7] [5]) \<and>
   canonical_form [3] \<and> canonical_form [2] \<and> canonical_form [5] \<and>
   canonical_form (Bignum ''17'') \<and> hd ''17'' \<noteq> CHR ''0''"
proof -
  have e: "op_div [1, 7] [5] = Some [3]" "op_mod [1, 7] [5] = Some [2]"
    "mod_exponent [1, 7] [5] [7] = Some [5]"
    by (simp_all add: mod_exponent_def mod_exponent_loop.simps op_eq_def op_mod_def op_div_def
      div_loop.simps op_less_def op_minus_def op_times_def signed_modulo_int_def
      signed_divide_int_def)
  show ?thesis
    using e canonical_form_results[of "[0, 1, 7]" "[5]" "[7]" "''17''"]
      canonical_form_results[of "[1, 7]" "[5]" "[7]" "''17''"] by simp
qed

section \<open>The claims on the codec and the line protocol\<close>

text \<open>
  C7. Decoding the encoding of a string gives the string back. A \<^verbatim>\<open>char\<close> of the source is
  a byte, so every character has a code below 1000, and its three digits are written in
  full: the number of digits is a multiple of three and decoding adds no padding.
\<close>

theorem codec_round_trip: "bignum_to_string (string_to_bignum s) = Inr s"
proof -
  have "to_string (string_to_bignum s) = map (\<lambda>d. digit_char (nat d)) (string_to_bignum s)"
    using digits_ok_string_to_bignum by (rule to_string_digits)
  then show ?thesis
    by (simp add: bignum_to_string_def Let_def length_string_to_bignum decode_groups_encoding)
qed

text \<open>
  C1. Under keys that satisfy \<open>rsa_keys\<close>, the line that consists of one space is
  printable and not longer than 96 characters, and the round trip returns the empty
  line for it: \<^verbatim>\<open>large_decrypt\<close> removes every trailing space, those of the content as
  well as those of the padding.
\<close>

theorem round_trip_counterexample:
  "printable '' '' \<and> length '' '' \<le> 96 \<and>
   round_trip (1 # replicate 153 0) [1] [1] (to_encrypt ['' '']) = Some [Some (Inr '''')]"
proof -
  have "round_trip (1 # replicate 153 0) [1] [1] (to_encrypt ['' ''])
      = Some (map (\<lambda>L. Some (Inr (pop_back_spaces L))) ['' ''])"
    using rsa_keys_trivial by (rule round_trip_lines) (simp_all add: printable_space)
  then show ?thesis by (simp add: printable_space pop_back_spaces_space)
qed

text \<open>
  C1, as the code has it. Let the three key numbers satisfy \<open>rsa_keys\<close>, and let a text
  have at most 999 lines, each of them printable ASCII and at most 96 characters long.
  Then encrypting the text and decrypting every pair returns and gives, line by line,
  the line without its trailing spaces; a line that does not end with a space comes
  back unchanged.
\<close>

theorem round_trip_up_to_trailing_spaces:
  assumes "rsa_keys public_mod public_exp priv_exp"
    and "length lines \<le> 999"
    and "\<forall>L \<in> set lines. printable L \<and> length L \<le> 96"
  shows "round_trip public_mod public_exp priv_exp (to_encrypt lines)
           = Some (map (\<lambda>L. Some (Inr (pop_back_spaces L))) lines) \<and>
         (\<forall>L \<in> set lines. (L = [] \<or> last L \<noteq> CHR '' '') \<longrightarrow> pop_back_spaces L = L)"
  using round_trip_lines[OF assms] by (simp add: pop_back_spaces_id)

theorem round_trip_up_to_trailing_spaces_witness:
  "rsa_keys (1 # replicate 153 0) [1] [1] \<and> length [''A'', ''b c  ''] \<le> 999 \<and>
   printable ''A'' \<and> length ''A'' \<le> 96 \<and> printable ''b c  '' \<and> length ''b c  '' \<le> 96 \<and>
   round_trip (1 # replicate 153 0) [1] [1] (to_encrypt [''A'', ''b c  ''])
     = Some [Some (Inr ''A''), Some (Inr ''b c'')]"
proof -
  have h: "rsa_keys (1 # replicate 153 0) [1] [1]" "length [''A'', ''b c  ''] \<le> 999"
    "\<forall>L \<in> set [''A'', ''b c  '']. printable L \<and> length L \<le> 96"
    by (simp_all add: rsa_keys_trivial printable_def)
  have p: "pop_back_spaces ''A'' = ''A''" "pop_back_spaces ''b c  '' = ''b c''"
    using pop_back_spaces_replicate[of "''b c''" 2]
    by (simp_all add: pop_back_spaces_id numeral_2_eq_2)
  show ?thesis using h round_trip_up_to_trailing_spaces[OF h] p by (simp add: printable_def)
qed

text \<open>
  C8. The line number is written with \<^verbatim>\<open>std::setfill(' ')\<close>: the frame of the line \<^verbatim>\<open>"A"\<close>
  with number 1 starts and ends with two spaces and a \<^verbatim>\<open>1\<close>, not with \<^verbatim>\<open>001\<close>.
\<close>

theorem frame_counterexample:
  "padding ''A'' 1 = Inr (''  1A'' @ replicate 95 (CHR '' '') @ ''  1'') \<and>
   padding ''A'' 1 \<noteq> Inr (''001A'' @ replicate 95 (CHR '' '') @ ''001'')"
  by (simp add: padding_A)

text \<open>
  C8, as the code has it. For a line number from 1 to 999 the reading loop cuts the
  content to 96 characters and frames it: the line number right-aligned in three
  characters and filled with spaces on the left, the content, spaces up to 99
  characters, and the same three characters again, 102 characters in all. The task of
  the line encodes and encrypts the characters \<open>[0, 51)\<close> and \<open>[51, 102)\<close> of the frame.
\<close>

theorem frame_layout:
  assumes "1 \<le> line_num" "line_num \<le> 999"
  shows "encrypt_lines public_exp public_mod (line # rest) line_num futures
           = encrypt_lines public_exp public_mod rest (line_num + 1)
               (futures @ [encrypt_task public_exp public_mod (frame_of line line_num)]) \<and>
         padding (take 96 line) line_num = Inr (frame_of line line_num) \<and>
         length (line_number_field line_num) = 3 \<and>
         length (frame_of line line_num) = 102 \<and>
         length (take 51 (frame_of line line_num)) = 51 \<and>
         length (drop 51 (frame_of line line_num)) = 51 \<and>
         encrypt_task public_exp public_mod (frame_of line line_num) =
           (case mod_exponent (string_to_bignum (take 51 (frame_of line line_num)))
                   public_exp public_mod of
              None \<Rightarrow> None
            | Some first_encrypted \<Rightarrow>
                (case mod_exponent (string_to_bignum (drop 51 (frame_of line line_num)))
                        public_exp public_mod of
                   None \<Rightarrow> None
                 | Some second_encrypted \<Rightarrow>
                     Some (Inr (to_string first_encrypted, to_string second_encrypted))))"
proof -
  have k: "0 \<le> line_num" using assms(1) by simp
  have l: "length (frame_of line line_num) = 102" using k assms(2) by (rule length_frame_of)
  have "padding (take 96 line) line_num = Inr (frame_of (take 96 line) line_num)"
    using k assms(2) by (rule padding_frame) simp
  then have p: "padding (take 96 line) line_num = Inr (frame_of line line_num)"
    by (simp only: frame_of_take)
  have t: "encrypt_task public_exp public_mod (frame_of line line_num) =
           (case mod_exponent (string_to_bignum (take 51 (frame_of line line_num)))
                   public_exp public_mod of
              None \<Rightarrow> None
            | Some first_encrypted \<Rightarrow>
                (case mod_exponent (string_to_bignum (drop 51 (frame_of line line_num)))
                        public_exp public_mod of
                   None \<Rightarrow> None
                 | Some second_encrypted \<Rightarrow>
                     Some (Inr (to_string first_encrypted, to_string second_encrypted))))"
    by (rule encrypt_task_halves) (simp add: l)
  show ?thesis
    using encrypt_lines_step[OF k assms(2)] p length_line_number_field[OF k assms(2)] l t
    by simp
qed

theorem frame_layout_witness:
  "(1::int) \<le> 7 \<and> (7::int) \<le> 999 \<and>
   padding (take 96 (replicate 97 (CHR ''A''))) 7 = Inr (frame_of (replicate 97 (CHR ''A'')) 7) \<and>
   frame_of (replicate 97 (CHR ''A'')) 7 = ''  7'' @ replicate 96 (CHR ''A'') @ ''  7'' \<and>
   length (frame_of (replicate 97 (CHR ''A'')) 7) = 102 \<and>
   length (take 51 (frame_of (replicate 97 (CHR ''A'')) 7)) = 51 \<and>
   length (drop 51 (frame_of (replicate 97 (CHR ''A'')) 7)) = 51"
proof -
  have h: "(1::int) \<le> 7" "(7::int) \<le> 999" by simp_all
  have f: "frame_of (replicate 97 (CHR ''A'')) 7 = ''  7'' @ replicate 96 (CHR ''A'') @ ''  7''"
    by (simp add: frame_of_def line_number_field_7)
  show ?thesis
    using h f frame_layout[OF h, of public_exp public_mod "replicate 97 (CHR ''A'')" "[]" "[]"]
    by (simp del: replicate_eq_replicate)
qed

text \<open>
  C10. A text of 1000 lines whose last line has 96 characters: framing line 1000 makes
  \<^verbatim>\<open>padding_check - 3\<close> wrap around and \<^verbatim>\<open>append\<close> throw \<^verbatim>\<open>std::length_error\<close>. Whatever the
  keys are, \<^verbatim>\<open>large_encrypt\<close> returns no sequence of pairs; with keys that satisfy
  \<open>rsa_keys\<close> it ends with that exception. (For a text of at most 999 lines
  \<open>large_encrypt_in_order\<close> shows one pair for each line, in the order of the lines.)
\<close>

theorem large_encrypt_line_1000:
  "length (getlines (to_encrypt (replicate 999 [] @ [replicate 96 (CHR ''a'')]))) = 1000 \<and>
   (large_encrypt public_exp public_mod (to_encrypt (replicate 999 [] @ [replicate 96 (CHR ''a'')]))
      = None \<or>
    large_encrypt public_exp public_mod (to_encrypt (replicate 999 [] @ [replicate 96 (CHR ''a'')]))
      = Some (Inl LengthError)) \<and>
   large_encrypt [1] (1 # replicate 153 0) (to_encrypt (replicate 999 [] @ [replicate 96 (CHR ''a'')]))
      = Some (Inl LengthError)"
proof -
  have nl: "CHR 0x0A \<notin> set (replicate 96 (CHR ''a''))" by simp
  have g: "getlines (to_encrypt (replicate 999 [] @ [replicate 96 (CHR ''a'')]))
      = replicate 999 [] @ [replicate 96 (CHR ''a'')]"
    using nl by (intro getlines_to_encrypt) auto
  have l: "96 \<le> length (replicate 96 (CHR ''a''))" by simp
  show ?thesis
    using line_1000_any_key[OF l nl, of public_exp public_mod]
      line_1000_rsa_keys[OF rsa_keys_trivial l nl]
    by (simp only: g) simp
qed

end
